theory Spec2Isabelle
  imports Complex_Main "HOL-Library.Product_Lexorder" "HOL-Library.AList" "HOL-Library.Sublist"
    "HOL-Library.Log_Nat"
begin

section \<open>Data model\<close>

text \<open>
  The program is \<^verbatim>\<open>src/app.py\<close>. The contribution is a Python integer (the number
  input has an integer value and step), so the invested totals are exact. The numbers
  of shares and the values are float64. In \<^verbatim>\<open>calculate_portfolio\<close> they are idealised
  as exact reals, which decides nothing for the claims about dates, rows, steps and
  invested totals; \<open>calculate_portfolio_f64\<close> below is the same function with every
  float operation rounded as float64 rounds it, for the claim that compares a value
  with an invested total. Where the float semantics differs from real arithmetic
  otherwise, it is written out: a missing value (NaN) in a pandas column is \<open>None\<close>,
  and a division by zero is either a raised \<^verbatim>\<open>ZeroDivisionError\<close> (Python floats, in
  \<^verbatim>\<open>calculate_portfolio\<close>) or an infinity or NaN (numpy scalars, in
  \<^verbatim>\<open>return_pct\<close>).

  A date is a pair (month number, day of the month): the month number counts calendar
  months from a fixed epoch, the day starts at 1. Dates are ordered lexicographically,
  which is chronological order.
\<close>

type_synonym date = "nat \<times> nat"

datatype error = ZeroDivisionError | KeyError | IndexError

text \<open>A pandas Series of prices with its index; all index labels of a Series are different.\<close>

type_synonym series = "(date \<times> real option) list"

text \<open>The DataFrame \<^verbatim>\<open>data\<close> returned by \<^verbatim>\<open>load_data\<close>: a column per symbol.\<close>

type_synonym price_frame = "string \<Rightarrow> series option"

text \<open>The local variables of \<^verbatim>\<open>calculate_portfolio\<close> that its loop updates.\<close>

record loop_state =
  shares_owned :: real
  total_invested :: real
  portfolio_values :: "real list"
  invested_values :: "real list"
  dates :: "date list"

text \<open>A row of the DataFrame that \<^verbatim>\<open>calculate_portfolio\<close> returns:
  index \<^verbatim>\<open>Date\<close>, columns \<^verbatim>\<open>Total Invested\<close> and \<^verbatim>\<open>Portfolio Value\<close>.\<close>

type_synonym sim_row = "date \<times> real \<times> real"

section \<open>The single-asset simulator\<close>

text \<open>\<^verbatim>\<open>Series.dropna()\<close>: the rows whose value is missing are removed, nothing else.\<close>

fun dropna :: "series \<Rightarrow> (date \<times> real) list" where
  "dropna [] = []"
| "dropna ((d, None) # xs) = dropna xs"
| "dropna ((d, Some p) # xs) = (d, p) # dropna xs"

definition init_state :: loop_state where
  "init_state = \<lparr>shares_owned = 0, total_invested = 0, portfolio_values = [],
     invested_values = [], dates = []\<rparr>"

text \<open>
  One iteration of \<^verbatim>\<open>for date, price in prices.items()\<close>. The price is a Python float,
  so \<^verbatim>\<open>monthly_inv / price\<close> raises on a zero price. There is no other test on the
  price.
\<close>

definition body :: "real \<Rightarrow> date \<times> real \<Rightarrow> loop_state \<Rightarrow> error + loop_state" where
  "body monthly_inv dp st =
     (let price = snd dp in
      if price = 0 then Inl ZeroDivisionError
      else
        let shares_bought = monthly_inv / price;
            so = shares_owned st + shares_bought;
            ti = total_invested st + monthly_inv;
            current_value = so * price
        in Inr \<lparr>shares_owned = so, total_invested = ti,
                 portfolio_values = portfolio_values st @ [current_value],
                 invested_values = invested_values st @ [ti],
                 dates = dates st @ [fst dp]\<rparr>)"

fun loop :: "real \<Rightarrow> (date \<times> real) list \<Rightarrow> loop_state \<Rightarrow> error + loop_state" where
  "loop monthly_inv [] st = Inr st"
| "loop monthly_inv (dp # ps) st =
     (case body monthly_inv dp st of
        Inl e \<Rightarrow> Inl e
      | Inr st' \<Rightarrow> loop monthly_inv ps st')"

text \<open>The states of the loop after each of its iterations, in order (the last one is the
  state \<open>loop\<close> ends in). The DataFrame does not show \<^verbatim>\<open>shares_owned\<close>; this trace does.\<close>

fun loop_trace :: "real \<Rightarrow> (date \<times> real) list \<Rightarrow> loop_state \<Rightarrow> error + loop_state list" where
  "loop_trace monthly_inv [] st = Inr []"
| "loop_trace monthly_inv (dp # ps) st =
     (case body monthly_inv dp st of
        Inl e \<Rightarrow> Inl e
      | Inr st' \<Rightarrow>
          (case loop_trace monthly_inv ps st' of
             Inl e \<Rightarrow> Inl e
           | Inr sts \<Rightarrow> Inr (st' # sts)))"

definition to_frame :: "loop_state \<Rightarrow> sim_row list" where
  "to_frame st = zip (dates st) (zip (invested_values st) (portfolio_values st))"

definition calculate_portfolio :: "price_frame \<Rightarrow> string \<Rightarrow> real \<Rightarrow> error + sim_row list" where
  "calculate_portfolio data ticker_symbol monthly_inv =
     (case data ticker_symbol of
        None \<Rightarrow> Inr []
      | Some col \<Rightarrow>
          (case loop monthly_inv (dropna col) init_state of
             Inl e \<Rightarrow> Inl e
           | Inr st \<Rightarrow> Inr (to_frame st)))"

section \<open>The period resampler\<close>

text \<open>
  \<^verbatim>\<open>data.resample('MS').first()\<close>, on one column. pandas cuts the time between the
  earliest and the latest index label into calendar months, makes one output row for each
  of these months, labels the row with the first day of the month (\<^verbatim>\<open>MS\<close> is "month
  start"), and gives it the first value of the month that is not missing, or a missing
  value when the month has none. The column is in chronological order, as the downloaded
  data is.
\<close>

definition month_of :: "date \<Rightarrow> nat" where
  "month_of d = fst d"

definition month_start :: "nat \<Rightarrow> date" where
  "month_start m = (m, 1)"

fun first_valid :: "real option list \<Rightarrow> real option" where
  "first_valid [] = None"
| "first_valid (None # vs) = first_valid vs"
| "first_valid (Some v # vs) = Some v"

definition in_month :: "nat \<Rightarrow> series \<Rightarrow> series" where
  "in_month m s = filter (\<lambda>r. month_of (fst r) = m) s"

definition resample_first :: "series \<Rightarrow> series" where
  "resample_first s =
     (if s = [] then []
      else
        let months = map (\<lambda>r. month_of (fst r)) s;
            lo = Min (set months);
            hi = Max (set months)
        in map (\<lambda>m. (month_start m, first_valid (map snd (in_month m s)))) [lo..<Suc hi])"

section \<open>The multi-asset aggregator\<close>

text \<open>The DataFrame \<^verbatim>\<open>combined_df\<close>: an index and named columns over it, in column
  order. A cell is \<open>None\<close> when pandas holds NaN there.\<close>

record combined =
  index :: "date list"
  columns :: "(string \<times> real option list) list"

definition empty_frame :: combined where
  "empty_frame = \<lparr>index = [], columns = []\<rparr>"

text \<open>\<^verbatim>\<open>DataFrame.empty\<close>: some axis has length 0.\<close>

definition df_empty :: "combined \<Rightarrow> bool" where
  "df_empty f = (index f = [] \<or> columns f = [])"

text \<open>\<^verbatim>\<open>combined_df[name] = s\<close>: the Series is aligned on the index the frame already
  has (a label of the frame that the Series lacks gets NaN, a label of the Series that the
  frame lacks is dropped); a column of that name is replaced, a new one is appended.\<close>

definition set_column :: "combined \<Rightarrow> string \<Rightarrow> (date \<times> real) list \<Rightarrow> combined" where
  "set_column f name s =
     f\<lparr>columns := AList.update name (map (map_of s) (index f)) (columns f)\<rparr>"

definition invested_column :: "sim_row list \<Rightarrow> (date \<times> real) list" where
  "invested_column df = map (\<lambda>r. (fst r, fst (snd r))) df"

definition value_column :: "sim_row list \<Rightarrow> (date \<times> real) list" where
  "value_column df = map (\<lambda>r. (fst r, snd (snd r))) df"

text \<open>The loop \<^verbatim>\<open>for name, symbol in selected_tickers.items()\<close>. An exception of
  \<^verbatim>\<open>calculate_portfolio\<close> leaves the loop (the \<^verbatim>\<open>except\<close> clause around it reports
  it); an empty result is skipped with a warning.\<close>

fun agg_loop :: "price_frame \<Rightarrow> real \<Rightarrow> (string \<times> string) list \<Rightarrow> combined \<Rightarrow> error + combined" where
  "agg_loop data monthly_inv [] cdf = Inr cdf"
| "agg_loop data monthly_inv (ns # ts) cdf =
     (case calculate_portfolio data (snd ns) monthly_inv of
        Inl e \<Rightarrow> Inl e
      | Inr df \<Rightarrow>
          if df = [] then agg_loop data monthly_inv ts cdf
          else
            let cdf1 = (if df_empty cdf
                        then set_column \<lparr>index = map fst df, columns = []\<rparr>
                               ''Total Invested'' (invested_column df)
                        else cdf);
                cdf2 = set_column cdf1 (fst ns) (value_column df)
            in agg_loop data monthly_inv ts cdf2)"

text \<open>\<^verbatim>\<open>DataFrame.ffill()\<close>: in every column, a missing cell takes the value of the
  nearest row above it that has one, and stays missing when no row above has one.\<close>

fun ffill_from :: "real option \<Rightarrow> real option list \<Rightarrow> real option list" where
  "ffill_from prev [] = []"
| "ffill_from prev (None # vs) = prev # ffill_from prev vs"
| "ffill_from prev (Some v # vs) = Some v # ffill_from (Some v) vs"

definition ffill :: "combined \<Rightarrow> combined" where
  "ffill f = f\<lparr>columns := map (\<lambda>nc. (fst nc, ffill_from None (snd nc))) (columns f)\<rparr>"

text \<open>The aggregation as a whole: \<open>Inr None\<close> is the message "Could not calculate
  portfolio values."\<close>

definition aggregate :: "price_frame \<Rightarrow> (string \<times> string) list \<Rightarrow> real \<Rightarrow> error + combined option" where
  "aggregate data selected_tickers monthly_inv =
     (case agg_loop data monthly_inv selected_tickers empty_frame of
        Inl e \<Rightarrow> Inl e
      | Inr cdf \<Rightarrow> if df_empty cdf then Inr None else Inr (Some (ffill cdf)))"

section \<open>The metrics\<close>

text \<open>
  \<^verbatim>\<open>final_value\<close> and \<^verbatim>\<open>final_invested\<close> are numpy scalars, read from the frame with
  \<^verbatim>\<open>.iloc[-1]\<close>. numpy does not raise on a division by zero: it gives an infinity or
  NaN (and a warning). The arithmetic of these scalars is written out on the extended
  values, with zero taken as positive zero.
\<close>

datatype npfloat = Fin real | PosInf | NegInf | NaN

fun np :: "real option \<Rightarrow> npfloat" where
  "np None = NaN"
| "np (Some v) = Fin v"

fun np_div :: "npfloat \<Rightarrow> npfloat \<Rightarrow> npfloat" where
  "np_div NaN y = NaN"
| "np_div x NaN = NaN"
| "np_div (Fin a) (Fin b) =
     (if b \<noteq> 0 then Fin (a / b)
      else if a = 0 then NaN else if 0 < a then PosInf else NegInf)"
| "np_div (Fin a) y = Fin 0"
| "np_div PosInf (Fin b) = (if 0 \<le> b then PosInf else NegInf)"
| "np_div NegInf (Fin b) = (if 0 \<le> b then NegInf else PosInf)"
| "np_div x y = NaN"

fun np_sub :: "npfloat \<Rightarrow> npfloat \<Rightarrow> npfloat" where
  "np_sub NaN y = NaN"
| "np_sub x NaN = NaN"
| "np_sub (Fin a) (Fin b) = Fin (a - b)"
| "np_sub (Fin a) PosInf = NegInf"
| "np_sub (Fin a) NegInf = PosInf"
| "np_sub PosInf PosInf = NaN"
| "np_sub NegInf NegInf = NaN"
| "np_sub PosInf y = PosInf"
| "np_sub NegInf y = NegInf"

fun np_mul :: "npfloat \<Rightarrow> npfloat \<Rightarrow> npfloat" where
  "np_mul NaN y = NaN"
| "np_mul x NaN = NaN"
| "np_mul (Fin a) (Fin b) = Fin (a * b)"
| "np_mul (Fin a) PosInf = (if a = 0 then NaN else if 0 < a then PosInf else NegInf)"
| "np_mul (Fin a) NegInf = (if a = 0 then NaN else if 0 < a then NegInf else PosInf)"
| "np_mul PosInf (Fin b) = (if b = 0 then NaN else if 0 < b then PosInf else NegInf)"
| "np_mul NegInf (Fin b) = (if b = 0 then NaN else if 0 < b then NegInf else PosInf)"
| "np_mul PosInf PosInf = PosInf"
| "np_mul NegInf NegInf = PosInf"
| "np_mul x y = NegInf"

text \<open>\<^verbatim>\<open>return_pct = ((final_value / final_invested) - 1) * 100\<close>\<close>

definition return_pct :: "real option \<Rightarrow> real option \<Rightarrow> npfloat" where
  "return_pct final_value final_invested =
     np_mul (np_sub (np_div (np final_value) (np final_invested)) (Fin 1)) (Fin 100)"

text \<open>\<^verbatim>\<open>combined_df[name].iloc[-1]\<close>\<close>

definition final_cell :: "combined \<Rightarrow> string \<Rightarrow> error + real option" where
  "final_cell f name =
     (case map_of (columns f) name of
        None \<Rightarrow> Inl KeyError
      | Some col \<Rightarrow> if col = [] then Inl IndexError else Inr (last col))"

fun metrics :: "combined \<Rightarrow> real option \<Rightarrow> string list \<Rightarrow> error + (string \<times> real option \<times> npfloat) list" where
  "metrics f final_invested [] = Inr []"
| "metrics f final_invested (name # ns) =
     (case final_cell f name of
        Inl e \<Rightarrow> Inl e
      | Inr final_value \<Rightarrow>
          (case metrics f final_invested ns of
             Inl e \<Rightarrow> Inl e
           | Inr ms \<Rightarrow> Inr ((name, final_value, return_pct final_value final_invested) # ms)))"

text \<open>The metrics section: the final invested amount, and for each ticker that has a
  column its final value and its return in percent.\<close>

definition summarize :: "combined \<Rightarrow> (string \<times> string) list \<Rightarrow> error + real option \<times> (string \<times> real option \<times> npfloat) list" where
  "summarize f selected_tickers =
     (case final_cell f ''Total Invested'' of
        Inl e \<Rightarrow> Inl e
      | Inr final_invested \<Rightarrow>
          (let valid_tickers = filter (\<lambda>name. name \<in> fst ` set (columns f)) (map fst selected_tickers)
           in case metrics f final_invested valid_tickers of
                Inl e \<Rightarrow> Inl e
              | Inr ms \<Rightarrow> Inr (final_invested, ms)))"

section \<open>Deduplication of the selected tickers\<close>

text \<open>\<^verbatim>\<open>selected_tickers\<close> is a dict from display name to symbol, here the list of its
  items in iteration order (the names are different). The loop keeps \<^verbatim>\<open>unique_tickers\<close>
  and \<^verbatim>\<open>seen_symbols\<close>.\<close>

fun dedup_loop :: "(string \<times> string) list \<Rightarrow> (string \<times> string) list \<times> string set \<Rightarrow> (string \<times> string) list \<times> string set" where
  "dedup_loop [] us = us"
| "dedup_loop (ns # ts) us =
     (if snd ns \<notin> snd us
      then dedup_loop ts (AList.update (fst ns) (snd ns) (fst us), insert (snd ns) (snd us))
      else dedup_loop ts us)"

definition deduplicate :: "(string \<times> string) list \<Rightarrow> (string \<times> string) list" where
  "deduplicate selected_tickers = fst (dedup_loop selected_tickers ([], {}))"

section \<open>The simulator in float64 arithmetic\<close>

text \<open>
  A float64 operation returns the exact result rounded to the nearest number with a
  significand of 53 bits, a tie going to the even significand. \<open>fl64\<close> is this
  rounding on the reals; the range of the exponent is not limited here, so overflow to
  infinity and gradual underflow are not modelled. \<open>ilog2 x\<close> is the exponent of a
  positive \<open>x\<close>: the \<open>e\<close> with \<open>2^e \<le> x < 2^(e+1)\<close>.
\<close>

definition pow2 :: "int \<Rightarrow> real" where
  "pow2 e = (if 0 \<le> e then 2 ^ nat e else 1 / 2 ^ nat (- e))"

definition ilog2 :: "real \<Rightarrow> int" where
  "ilog2 x = (if 1 \<le> x then bitlen \<lfloor>x\<rfloor> - 1 else - bitlen (\<lceil>1 / x\<rceil> - 1))"

definition round_half_even :: "real \<Rightarrow> int" where
  "round_half_even y =
     (let f = \<lfloor>y\<rfloor>; d = y - of_int f
      in if d < 1 / 2 then f else if 1 / 2 < d then f + 1 else if even f then f else f + 1)"

definition fl64 :: "real \<Rightarrow> real" where
  "fl64 x =
     (if x = 0 then 0
      else let e = ilog2 \<bar>x\<bar> - 52
           in of_int (round_half_even (x / pow2 e)) * pow2 e)"

text \<open>The loop body of \<^verbatim>\<open>calculate_portfolio\<close> once more, now with the three float
  operations rounded: the division, the addition to \<^verbatim>\<open>shares_owned\<close> and the product
  \<^verbatim>\<open>shares_owned * price\<close>. \<^verbatim>\<open>total_invested += monthly_inv\<close> adds Python integers and
  is exact.\<close>

definition body_f64 :: "real \<Rightarrow> date \<times> real \<Rightarrow> loop_state \<Rightarrow> error + loop_state" where
  "body_f64 monthly_inv dp st =
     (let price = snd dp in
      if price = 0 then Inl ZeroDivisionError
      else
        let shares_bought = fl64 (monthly_inv / price);
            so = fl64 (shares_owned st + shares_bought);
            ti = total_invested st + monthly_inv;
            current_value = fl64 (so * price)
        in Inr \<lparr>shares_owned = so, total_invested = ti,
                 portfolio_values = portfolio_values st @ [current_value],
                 invested_values = invested_values st @ [ti],
                 dates = dates st @ [fst dp]\<rparr>)"

fun loop_f64 :: "real \<Rightarrow> (date \<times> real) list \<Rightarrow> loop_state \<Rightarrow> error + loop_state" where
  "loop_f64 monthly_inv [] st = Inr st"
| "loop_f64 monthly_inv (dp # ps) st =
     (case body_f64 monthly_inv dp st of
        Inl e \<Rightarrow> Inl e
      | Inr st' \<Rightarrow> loop_f64 monthly_inv ps st')"

definition calculate_portfolio_f64 :: "price_frame \<Rightarrow> string \<Rightarrow> real \<Rightarrow> error + sim_row list" where
  "calculate_portfolio_f64 data ticker_symbol monthly_inv =
     (case data ticker_symbol of
        None \<Rightarrow> Inr []
      | Some col \<Rightarrow>
          (case loop_f64 monthly_inv (dropna col) init_state of
             Inl e \<Rightarrow> Inl e
           | Inr st \<Rightarrow> Inr (to_frame st)))"

text \<open>The unit roundoff of float64.\<close>

definition u64 :: real where
  "u64 = 1 / 2 ^ 53"

text \<open>The number of observations of a column with a strictly positive price.\<close>

definition positive_count :: "series \<Rightarrow> nat" where
  "positive_count col = length (filter (\<lambda>r. 0 < snd r) (dropna col))"

text \<open>The entries of a list of tickers whose symbol is neither in \<open>seen\<close> nor carried
  by an earlier entry of the list; the deduplication loop is compared with it.\<close>

fun keep_first :: "string set \<Rightarrow> (string \<times> string) list \<Rightarrow> (string \<times> string) list" where
  "keep_first seen [] = []"
| "keep_first seen (ns # ts) =
     (if snd ns \<in> seen then keep_first seen ts
      else ns # keep_first (insert (snd ns) seen) ts)"

section \<open>Properties of the simulator\<close>

lemma body_Inr:
  "body c dp st = Inr st' \<longleftrightarrow>
     snd dp \<noteq> 0 \<and>
     st' = \<lparr>shares_owned = shares_owned st + c / snd dp,
            total_invested = total_invested st + c,
            portfolio_values = portfolio_values st @ [(shares_owned st + c / snd dp) * snd dp],
            invested_values = invested_values st @ [total_invested st + c],
            dates = dates st @ [fst dp]\<rparr>"
  by (auto simp: body_def Let_def)

lemma body_Inl: "body c dp st = Inl e \<longleftrightarrow> snd dp = 0 \<and> e = ZeroDivisionError"
  by (auto simp: body_def Let_def)

lemma loop_succeeds:
  "0 \<notin> snd ` set ps \<Longrightarrow> \<exists>st'. loop c ps st = Inr st'"
proof (induction ps arbitrary: st)
  case Nil
  show ?case by simp
next
  case (Cons dp ps)
  from Cons.prems have nz: "snd dp \<noteq> 0" and rest: "0 \<notin> snd ` set ps" by auto
  from nz obtain st1 where b: "body c dp st = Inr st1"
    by (auto simp: body_Inr)
  from Cons.IH [OF rest, of st1] b show ?case by simp
qed

lemma loop_fails:
  "0 \<in> snd ` set ps \<Longrightarrow> loop c ps st = Inl ZeroDivisionError"
proof (induction ps arbitrary: st)
  case Nil
  then show ?case by simp
next
  case (Cons dp ps)
  show ?case
  proof (cases "body c dp st")
    case (Inl e)
    then have "e = ZeroDivisionError" by (simp add: body_Inl)
    with Inl show ?thesis by simp
  next
    case (Inr st1)
    then have "snd dp \<noteq> 0" by (simp add: body_Inr)
    with Cons.prems have "0 \<in> snd ` set ps" by auto
    from Cons.IH [OF this] Inr show ?thesis by simp
  qed
qed

lemma loop_dates:
  "loop c ps st = Inr st' \<Longrightarrow> dates st' = dates st @ map fst ps"
proof (induction ps arbitrary: st)
  case Nil
  then show ?case by simp
next
  case (Cons dp ps)
  then obtain st1 where b: "body c dp st = Inr st1" and l: "loop c ps st1 = Inr st'"
    by (auto split: sum.splits)
  from b have "dates st1 = dates st @ [fst dp]" by (simp add: body_Inr)
  with Cons.IH [OF l] show ?case by simp
qed

lemma loop_total:
  "loop c ps st = Inr st' \<Longrightarrow> total_invested st' = total_invested st + c * real (length ps)"
proof (induction ps arbitrary: st)
  case Nil
  then show ?case by simp
next
  case (Cons dp ps)
  then obtain st1 where b: "body c dp st = Inr st1" and l: "loop c ps st1 = Inr st'"
    by (auto split: sum.splits)
  from b have "total_invested st1 = total_invested st + c" by (simp add: body_Inr)
  with Cons.IH [OF l] show ?case by (simp add: algebra_simps)
qed

lemma loop_lengths:
  "loop c ps st = Inr st' \<Longrightarrow>
     length (invested_values st') = length (invested_values st) + length ps \<and>
     length (portfolio_values st') = length (portfolio_values st) + length ps"
proof (induction ps arbitrary: st)
  case Nil
  then show ?case by simp
next
  case (Cons dp ps)
  then obtain st1 where b: "body c dp st = Inr st1" and l: "loop c ps st1 = Inr st'"
    by (auto split: sum.splits)
  from b have "length (invested_values st1) = Suc (length (invested_values st))"
    and "length (portfolio_values st1) = Suc (length (portfolio_values st))"
    by (simp_all add: body_Inr)
  with Cons.IH [OF l] show ?case by simp
qed

lemma loop_last_invested:
  "loop c ps st = Inr st' \<Longrightarrow> ps \<noteq> [] \<Longrightarrow> last (invested_values st') = total_invested st'"
proof (induction ps arbitrary: st)
  case Nil
  then show ?case by simp
next
  case (Cons dp ps)
  then obtain st1 where b: "body c dp st = Inr st1" and l: "loop c ps st1 = Inr st'"
    by (auto split: sum.splits)
  show ?case
  proof (cases "ps = []")
    case True
    with l b show ?thesis by (simp add: body_Inr)
  next
    case False
    from Cons.IH [OF l False] show ?thesis .
  qed
qed

lemma to_frame_dates:
  "length (invested_values st) = length (dates st) \<Longrightarrow>
   length (portfolio_values st) = length (dates st) \<Longrightarrow>
   map fst (to_frame st) = dates st"
  by (simp add: to_frame_def)

lemma to_frame_invested:
  assumes "length (invested_values st) = length (dates st)"
    and "length (portfolio_values st) = length (dates st)"
  shows "map (\<lambda>r. fst (snd r)) (to_frame st) = invested_values st"
proof -
  have "map (\<lambda>r. fst (snd r)) (to_frame st) = map fst (map snd (to_frame st))"
    by simp
  also have "map snd (to_frame st) = zip (invested_values st) (portfolio_values st)"
    using assms by (simp add: to_frame_def)
  also have "map fst (zip (invested_values st) (portfolio_values st)) = invested_values st"
    using assms by simp
  finally show ?thesis .
qed

lemma loop_init_frame:
  assumes "loop c ps init_state = Inr st"
  shows "map fst (to_frame st) = map fst ps"
    and "map (\<lambda>r. fst (snd r)) (to_frame st) = invested_values st"
    and "length (to_frame st) = length ps"
proof -
  have d: "dates st = map fst ps"
    using loop_dates [OF assms] by (simp add: init_state_def)
  have l: "length (invested_values st) = length ps" "length (portfolio_values st) = length ps"
    using loop_lengths [OF assms] by (simp_all add: init_state_def)
  show "map fst (to_frame st) = map fst ps"
    using to_frame_dates [of st] d l by simp
  show "map (\<lambda>r. fst (snd r)) (to_frame st) = invested_values st"
    using to_frame_invested [of st] d l by simp
  show "length (to_frame st) = length ps"
    using d l by (simp add: to_frame_def)
qed

text \<open>The trace and the loop.\<close>

lemma loop_trace_succeeds:
  "0 \<notin> snd ` set ps \<Longrightarrow> \<exists>sts. loop_trace c ps st = Inr sts"
proof (induction ps arbitrary: st)
  case Nil
  show ?case by simp
next
  case (Cons dp ps)
  from Cons.prems have nz: "snd dp \<noteq> 0" and rest: "0 \<notin> snd ` set ps" by auto
  from nz obtain st1 where b: "body c dp st = Inr st1"
    by (auto simp: body_Inr)
  from Cons.IH [OF rest, of st1] b show ?case by auto
qed

lemma loop_trace_loop:
  "loop_trace c ps st = Inr sts \<Longrightarrow>
     loop c ps st = Inr (last (st # sts)) \<and> length sts = length ps"
proof (induction ps arbitrary: st sts)
  case Nil
  then show ?case by auto
next
  case (Cons dp ps)
  then obtain st1 sts1 where b: "body c dp st = Inr st1"
    and t: "loop_trace c ps st1 = Inr sts1" and s: "sts = st1 # sts1"
    by (auto split: sum.splits)
  from Cons.IH [OF t] b s show ?case by simp
qed

lemma loop_trace_invested:
  "loop_trace c ps st = Inr sts \<Longrightarrow> loop c ps st = Inr st' \<Longrightarrow>
     invested_values st' = invested_values st @ map total_invested sts"
proof (induction ps arbitrary: st sts)
  case Nil
  then show ?case by auto
next
  case (Cons dp ps)
  then obtain st1 sts1 where b: "body c dp st = Inr st1"
    and t: "loop_trace c ps st1 = Inr sts1" and s: "sts = st1 # sts1"
    by (auto split: sum.splits)
  from Cons.prems(2) b have l: "loop c ps st1 = Inr st'" by simp
  from b have "invested_values st1 = invested_values st @ [total_invested st1]"
    by (auto simp: body_Inr)
  with Cons.IH [OF t l] s show ?case by simp
qed

lemma loop_trace_steps:
  "loop_trace c ps st = Inr sts \<Longrightarrow> i < length sts \<Longrightarrow>
     total_invested (sts ! i) = total_invested ((st # sts) ! i) + c \<and>
     shares_owned (sts ! i) = shares_owned ((st # sts) ! i) + c / snd (ps ! i)"
proof (induction ps arbitrary: st sts i)
  case Nil
  then show ?case by auto
next
  case (Cons dp ps)
  then obtain st1 sts1 where b: "body c dp st = Inr st1"
    and t: "loop_trace c ps st1 = Inr sts1" and s: "sts = st1 # sts1"
    by (auto split: sum.splits)
  show ?case
  proof (cases i)
    case 0
    with b s show ?thesis by (auto simp: body_Inr)
  next
    case (Suc j)
    with Cons.prems(2) s have "j < length sts1" by simp
    from Cons.IH [OF t this] Suc s show ?thesis by simp
  qed
qed




lemma dropna_dates: "map fst (dropna col) = map fst (filter (\<lambda>r. snd r \<noteq> None) col)"
  by (induction col rule: dropna.induct) simp_all

lemma dropna_set: "(d, p) \<in> set (dropna col) \<longleftrightarrow> (d, Some p) \<in> set col"
  by (induction col rule: dropna.induct) auto

lemma dropna_no_zero: "Some 0 \<notin> snd ` set col \<Longrightarrow> 0 \<notin> snd ` set (dropna col)"
  by (force simp: dropna_set)

text \<open>A zero price ends the simulation with the exception of the division.\<close>

lemma calculate_portfolio_zero_price:
  "data symbol = Some col \<Longrightarrow> Some 0 \<in> snd ` set col \<Longrightarrow>
     calculate_portfolio data symbol c = Inl ZeroDivisionError"
proof -
  assume d: "data symbol = Some col" and z: "Some 0 \<in> snd ` set col"
  from z obtain d where "(d, Some 0) \<in> set col" by force
  then have "(d, 0) \<in> set (dropna col)" by (simp add: dropna_set)
  then have "0 \<in> snd ` set (dropna col)" by force
  from loop_fails [OF this] d show ?thesis by (simp add: calculate_portfolio_def)
qed

subsection \<open>Which observations are skipped\<close>




subsection \<open>The final invested total\<close>

text \<open>
  C3, as the code has it. For every contribution \<open>c\<close> and every column with at least one
  defined price and no zero price, the last row's \<^verbatim>\<open>Total Invested\<close> is \<open>c\<close> times the
  number of defined prices, of either sign; it is \<open>c\<close> times the number of positive
  prices when every defined price is positive.
\<close>

theorem final_invested_counts_defined_prices:
  assumes "data symbol = Some col" and "Some 0 \<notin> snd ` set col" and "dropna col \<noteq> []"
  shows "\<exists>rows. calculate_portfolio data symbol c = Inr rows \<and> rows \<noteq> [] \<and>
           fst (snd (last rows)) = c * real (length (dropna col)) \<and>
           ((\<forall>r \<in> set (dropna col). 0 < snd r) \<longrightarrow>
              fst (snd (last rows)) = c * real (positive_count col))"
proof -
  from loop_succeeds [OF dropna_no_zero [OF assms(2)]]
  obtain st where l: "loop c (dropna col) init_state = Inr st" by blast
  have cp: "calculate_portfolio data symbol c = Inr (to_frame st)"
    using assms(1) l by (simp add: calculate_portfolio_def)
  have ne: "to_frame st \<noteq> []"
    using loop_init_frame(3) [OF l] assms(3) by auto
  have "fst (snd (last (to_frame st))) = last (map (\<lambda>r. fst (snd r)) (to_frame st))"
    using ne by (simp add: last_map)
  also have "\<dots> = last (invested_values st)"
    by (simp only: loop_init_frame(2) [OF l])
  also have "\<dots> = total_invested st"
    by (rule loop_last_invested [OF l assms(3)])
  also have "\<dots> = c * real (length (dropna col))"
    using loop_total [OF l] by (simp add: init_state_def)
  finally have fin: "fst (snd (last (to_frame st))) = c * real (length (dropna col))" .
  have "positive_count col = length (dropna col)" if "\<forall>r \<in> set (dropna col). 0 < snd r"
    using that by (simp add: positive_count_def)
  with fin cp ne show ?thesis by auto
qed

text \<open>C3, an instance: two defined prices, both positive, one missing price between.\<close>

theorem final_invested_counts_defined_prices_witness:
  "\<exists>rows. calculate_portfolio
       (Map.empty(''A'' \<mapsto> [((0, 1), Some 10), ((1, 1), None), ((2, 1), Some 20)])) ''A'' 100
         = Inr rows \<and> rows \<noteq> [] \<and>
      fst (snd (last rows)) = 200 \<and>
      positive_count [((0, 1), Some 10), ((1, 1), None), ((2, 1), Some 20)] = 2"
  using final_invested_counts_defined_prices
    [of "Map.empty(''A'' \<mapsto> [((0, 1), Some 10), ((1, 1), None), ((2, 1), Some 20)])"
        "''A''" "[((0, 1), Some 10), ((1, 1), None), ((2, 1), Some 20)]" 100]
  by (simp add: positive_count_def)

text \<open>C3 as stated fails: this column contains one positive price, the contribution is
  100, and the last row's invested total is 200.\<close>

theorem final_invested_counterexample:
  "calculate_portfolio (Map.empty(''A'' \<mapsto> [((0, 1), Some (- 4)), ((1, 1), Some 20)])) ''A'' 100
     = Inr [((0, 1), 100, 100), ((1, 1), 200, - 400)]
   \<and> positive_count [((0, 1), Some (- 4)), ((1, 1), Some 20)] = 1"
  by (simp add: calculate_portfolio_def body_def init_state_def to_frame_def positive_count_def)

subsection \<open>The steps of the loop\<close>

text \<open>
  C5, as the code has it. For a positive contribution \<open>c\<close> and a column whose defined
  prices are all strictly positive, the loop runs to its end, the \<^verbatim>\<open>Total Invested\<close>
  column of the result is the invested total after each iteration, and from each state of
  the loop to the next (the first step starts from the initial state) \<^verbatim>\<open>shares_owned\<close>
  does not decrease and \<^verbatim>\<open>total_invested\<close> grows by exactly \<open>c\<close>, hence strictly.
\<close>

theorem shares_and_invested_steps:
  assumes "data symbol = Some col"
    and "\<forall>r \<in> set (dropna col). 0 < snd r"
    and "0 < c"
  shows "\<exists>sts rows.
           loop_trace c (dropna col) init_state = Inr sts \<and>
           calculate_portfolio data symbol c = Inr rows \<and>
           map (\<lambda>r. fst (snd r)) rows = map total_invested sts \<and>
           (\<forall>i < length sts.
              shares_owned ((init_state # sts) ! i) \<le> shares_owned (sts ! i) \<and>
              total_invested (sts ! i) = total_invested ((init_state # sts) ! i) + c \<and>
              total_invested ((init_state # sts) ! i) < total_invested (sts ! i))"
proof -
  have nz: "0 \<notin> snd ` set (dropna col)"
    using assms(2) by force
  from loop_trace_succeeds [OF nz]
  obtain sts where t: "loop_trace c (dropna col) init_state = Inr sts" by blast
  from loop_trace_loop [OF t]
  have l: "loop c (dropna col) init_state = Inr (last (init_state # sts))"
    and len: "length sts = length (dropna col)" by simp_all
  define st where "st = last (init_state # sts)"
  have cp: "calculate_portfolio data symbol c = Inr (to_frame st)"
    using assms(1) l by (simp add: calculate_portfolio_def st_def)
  have "invested_values st = map total_invested sts"
    using loop_trace_invested [OF t l] by (simp add: st_def init_state_def)
  then have inv: "map (\<lambda>r. fst (snd r)) (to_frame st) = map total_invested sts"
    using loop_init_frame(2) [OF l] by (simp add: st_def)
  have steps: "shares_owned ((init_state # sts) ! i) \<le> shares_owned (sts ! i) \<and>
      total_invested (sts ! i) = total_invested ((init_state # sts) ! i) + c \<and>
      total_invested ((init_state # sts) ! i) < total_invested (sts ! i)"
    if i: "i < length sts" for i
  proof -
    from i len have "dropna col ! i \<in> set (dropna col)" by simp
    with assms(2) have pos: "0 < snd (dropna col ! i)" by blast
    then have "0 \<le> c / snd (dropna col ! i)" using assms(3) by simp
    with loop_trace_steps [OF t i] assms(3) show ?thesis by simp
  qed
  from t cp inv steps show ?thesis by blast
qed

text \<open>C5, an instance: prices 10 and 20, contribution 100.\<close>

theorem shares_and_invested_steps_witness:
  "\<exists>sts rows.
     loop_trace 100 [((0, 1), 10), ((1, 1), 20)] init_state = Inr sts \<and>
     calculate_portfolio (Map.empty(''A'' \<mapsto> [((0, 1), Some 10), ((1, 1), Some 20)])) ''A'' 100 = Inr rows \<and>
     map (\<lambda>r. fst (snd r)) rows = map total_invested sts \<and>
     (\<forall>i < length sts.
        shares_owned ((init_state # sts) ! i) \<le> shares_owned (sts ! i) \<and>
        total_invested (sts ! i) = total_invested ((init_state # sts) ! i) + 100 \<and>
        total_invested ((init_state # sts) ! i) < total_invested (sts ! i))"
  using shares_and_invested_steps
    [of "Map.empty(''A'' \<mapsto> [((0, 1), Some 10), ((1, 1), Some 20)])" "''A''"
        "[((0, 1), Some 10), ((1, 1), Some 20)]" 100]
  by simp

text \<open>C5 as stated fails, in two ways: with the prices 10 and -5 and the contribution 100
  the shares owned go from 10 down to -10; with the contribution 0 the invested total
  stays at 0 and is not strictly increasing.\<close>

theorem shares_decrease_counterexample:
  "map_sum id (map shares_owned) (loop_trace 100 [((0, 1), 10), ((1, 1), - 5)] init_state)
     = Inr [10, - 10]
   \<and> map_sum id (map total_invested) (loop_trace 0 [((0, 1), 10), ((1, 1), 10)] init_state)
     = Inr [0, 0]"
  by (simp add: body_def init_state_def)

subsection \<open>A constant price\<close>

lemma loop_same_price:
  assumes "loop c ps st = Inr st'"
    and "\<forall>r \<in> set ps. snd r = p"
    and "shares_owned st * p = total_invested st"
    and "portfolio_values st = invested_values st"
  shows "portfolio_values st' = invested_values st'"
  using assms
proof (induction ps arbitrary: st)
  case Nil
  then show ?case by simp
next
  case (Cons dp ps)
  then obtain st1 where b: "body c dp st = Inr st1" and l: "loop c ps st1 = Inr st'"
    by (auto split: sum.splits)
  from Cons.prems(2) have pe: "snd dp = p" and rest: "\<forall>r \<in> set ps. snd r = p" by simp_all
  from b pe have pnz: "p \<noteq> 0" by (auto simp: body_Inr)
  have sh: "shares_owned st1 * p = total_invested st1"
    using b pe pnz Cons.prems(3) by (auto simp: body_Inr algebra_simps)
  have pv: "portfolio_values st1 = invested_values st1"
    using b pe pnz Cons.prems(3,4) by (auto simp: body_Inr algebra_simps)
  from Cons.IH [OF l rest sh pv] show ?case .
qed

text \<open>In exact arithmetic the value equals the invested total in every row.\<close>

lemma constant_price_value_equals_invested:
  assumes "data symbol = Some col"
    and "\<forall>r \<in> set (dropna col). snd r = p"
    and "0 < p"
  shows "\<exists>rows. calculate_portfolio data symbol c = Inr rows \<and>
           length rows = length (dropna col) \<and>
           (\<forall>r \<in> set rows. snd (snd r) = fst (snd r))"
proof -
  have nz: "0 \<notin> snd ` set (dropna col)"
    using assms(2,3) by force
  from loop_succeeds [OF nz]
  obtain st where l: "loop c (dropna col) init_state = Inr st" by blast
  have cp: "calculate_portfolio data symbol c = Inr (to_frame st)"
    using assms(1) l by (simp add: calculate_portfolio_def)
  have "portfolio_values st = invested_values st"
    by (rule loop_same_price [OF l assms(2)]) (simp_all add: init_state_def)
  then have "\<forall>r \<in> set (to_frame st). snd (snd r) = fst (snd r)"
    by (auto simp: to_frame_def in_set_zip)
  with cp loop_init_frame(3) [OF l] show ?thesis by blast
qed

subsection \<open>The rounding of float64\<close>

text \<open>\<open>bitlen\<close> on numerals, for the evaluation of \<open>fl64\<close>.\<close>

lemma bitlen_numeral_eval:
  "bitlen (numeral k) = bitlen (numeral k div 2) + 1"
  "bitlen 1 = 1"
  using compute_bitlen [of "numeral k"] compute_bitlen [of 1] by simp_all

text \<open>The exponent is the right one, and the rounding moves a number by at most
  \<open>2^-53\<close> of its size.\<close>

lemma pow2_powi: "pow2 e = 2 powi e"
  by (simp add: pow2_def power_int_def inverse_eq_divide power_one_over)

lemma pow2_pos: "0 < pow2 e"
  by (simp add: pow2_powi)

lemma pow2_Suc: "pow2 (e + 1) = 2 * pow2 e"
  by (simp add: pow2_powi power_int_add)

lemma pow2_diff: "pow2 (a - b) = pow2 a / pow2 b"
  by (simp add: pow2_powi power_int_diff)

lemma ilog2_bounds:
  assumes "0 < x"
  shows "pow2 (ilog2 x) \<le> x \<and> x < 2 * pow2 (ilog2 x)"
proof (cases "1 \<le> x")
  case True
  define n where "n = \<lfloor>x\<rfloor>"
  have n: "0 < n" using True by (simp add: n_def)
  from bitlen_bounds [OF n] have lo: "2 ^ nat (bitlen n - 1) \<le> n" and hi: "n < 2 ^ nat (bitlen n)"
    by simp_all
  have b1: "1 \<le> bitlen n" using n by (auto simp: bitlen_alt_def)
  have e: "ilog2 x = bitlen n - 1" using True by (simp add: ilog2_def n_def)
  have p: "pow2 (ilog2 x) = 2 ^ nat (bitlen n - 1)" using b1 by (simp add: e pow2_def)
  have "real_of_int (2 ^ nat (bitlen n - 1)) \<le> real_of_int n" using lo by (simp only: of_int_le_iff)
  also have "\<dots> \<le> x" by (simp add: n_def)
  finally have 1: "pow2 (ilog2 x) \<le> x" by (simp add: p)
  have "n + 1 \<le> 2 ^ nat (bitlen n)" using hi by simp
  then have "real_of_int (n + 1) \<le> real_of_int (2 ^ nat (bitlen n))" by (simp only: of_int_le_iff)
  moreover have "x < real_of_int (n + 1)" by (simp add: n_def)
  moreover have "nat (bitlen n) = Suc (nat (bitlen n - 1))" using b1 by simp
  ultimately have "x < 2 * 2 ^ nat (bitlen n - 1)" by simp
  then have 2: "x < 2 * pow2 (ilog2 x)" by (simp add: p)
  from 1 2 show ?thesis ..
next
  case False
  then have x1: "x < 1" by simp
  define y where "y = 1 / x"
  have y1: "1 < y" using assms x1 by (simp add: y_def)
  define m where "m = \<lceil>y\<rceil> - 1"
  have m: "0 < m" using y1 by (simp add: m_def less_ceiling_iff)
  define k where "k = bitlen m"
  from bitlen_bounds [OF m] have lo: "2 ^ nat (k - 1) \<le> m" and hi: "m < 2 ^ nat k"
    by (simp_all add: k_def)
  have k1: "1 \<le> k" using m by (auto simp: bitlen_alt_def k_def)
  have e: "ilog2 x = - k" using False by (simp add: ilog2_def k_def m_def y_def)
  have p: "pow2 (ilog2 x) = 1 / 2 ^ nat k" using k1 by (simp add: e pow2_def)
  have my: "real_of_int m < y" by (simp add: m_def) linarith
  have ym: "y \<le> real_of_int (m + 1)" by (simp add: m_def)
  have "m + 1 \<le> 2 ^ nat k" using hi by simp
  then have "real_of_int (m + 1) \<le> real_of_int (2 ^ nat k)" by (simp only: of_int_le_iff)
  with ym have yk: "y \<le> 2 ^ nat k" by simp
  have "(2::real) ^ nat (k - 1) \<le> real_of_int m"
    using lo of_int_le_iff [of "2 ^ nat (k - 1)" m, where ?'a = real] by simp
  with my have ky: "2 ^ nat (k - 1) < y" by linarith
  have xy: "x = 1 / y" using assms by (simp add: y_def)
  have yx: "1 / y = x" using xy by simp
  have "1 / 2 ^ nat k \<le> 1 / y"
    using yk y1 by (intro divide_left_mono) simp_all
  then have 1: "pow2 (ilog2 x) \<le> x" by (simp only: p yx)
  have "1 / y < 1 / 2 ^ nat (k - 1)"
    using ky y1 by (intro divide_strict_left_mono) simp_all
  moreover have "nat k = Suc (nat (k - 1))" using k1 by simp
  then have "(1::real) / 2 ^ nat (k - 1) = 2 * (1 / 2 ^ nat k)" by simp
  ultimately have 2: "x < 2 * pow2 (ilog2 x)" by (simp only: p yx)
  from 1 2 show ?thesis ..
qed

lemma round_half_even_error: "\<bar>of_int (round_half_even y) - y\<bar> \<le> 1 / 2"
proof -
  have "of_int \<lfloor>y\<rfloor> \<le> y" and "y < of_int \<lfloor>y\<rfloor> + 1" by linarith+
  then show ?thesis
    by (auto simp: round_half_even_def Let_def abs_le_iff)
qed

lemma fl64_error: "\<bar>fl64 x - x\<bar> \<le> \<bar>x\<bar> / 2 ^ 53"
proof (cases "x = 0")
  case True
  then show ?thesis by (simp add: fl64_def)
next
  case False
  define e0 where "e0 = ilog2 \<bar>x\<bar>"
  define e where "e = e0 - 52"
  define r where "r = round_half_even (x / pow2 e)"
  have f: "fl64 x = of_int r * pow2 e"
    using False by (simp add: fl64_def Let_def e_def e0_def r_def)
  from False have "0 < \<bar>x\<bar>" by simp
  from ilog2_bounds [OF this] have lo: "pow2 e0 \<le> \<bar>x\<bar>" by (simp add: e0_def)
  have pe: "0 < pow2 e" by (rule pow2_pos)
  have "fl64 x - x = (of_int r - x / pow2 e) * pow2 e"
    using pe by (simp add: f field_simps)
  then have "\<bar>fl64 x - x\<bar> = \<bar>of_int r - x / pow2 e\<bar> * pow2 e"
    using pe by (simp add: abs_mult)
  also have "\<dots> \<le> 1 / 2 * pow2 e"
    using round_half_even_error [of "x / pow2 e"] pe
    by (intro mult_right_mono) (simp_all add: r_def)
  also have "pow2 e = pow2 e0 / 2 ^ 52"
  proof -
    have "pow2 52 = 2 ^ 52" by (simp add: pow2_def)
    then show ?thesis by (simp only: e_def pow2_diff)
  qed
  also have "1 / 2 * (pow2 e0 / 2 ^ 52) = pow2 e0 / 2 ^ 53" by simp
  also have "\<dots> \<le> \<bar>x\<bar> / 2 ^ 53"
    using lo by (intro divide_right_mono) simp_all
  finally show ?thesis .
qed

subsection \<open>A constant price in float64\<close>

text \<open>One purchase more: how far the shares owned and the value can be from their exact
  amounts, for any rounding of relative error at most \<open>u\<close>.\<close>

lemma shares_step_bound:
  fixes u a s q s1 :: real and k :: nat
  assumes u: "0 \<le> u"
    and q: "\<bar>q - a\<bar> \<le> u * \<bar>a\<bar>"
    and s: "\<bar>s - real k * a\<bar> \<le> ((1 + u) ^ (k + 1) - 1) * (real k * \<bar>a\<bar>)"
    and s1: "\<bar>s1 - (s + q)\<bar> \<le> u * \<bar>s + q\<bar>"
  shows "\<bar>s1 - real (Suc k) * a\<bar> \<le> ((1 + u) ^ (k + 2) - 1) * (real (Suc k) * \<bar>a\<bar>)"
proof -
  define A where "A = \<bar>a\<bar>"
  define G where "G = (1 + u) ^ (k + 1)"
  define E where "E = \<bar>s - real k * a\<bar>"
  define e where "e = \<bar>q - a\<bar>"
  define K where "K = real (Suc k)"
  have A0: "0 \<le> A" by (simp add: A_def)
  have K1: "K = real k + 1" by (simp add: K_def)
  have G1: "1 + u \<le> G"
    unfolding G_def using u by (intro self_le_power) simp_all
  have Eb: "E \<le> (G - 1) * (real k * A)" using s by (simp add: E_def G_def A_def)
  have eb: "e \<le> u * A" using q by (simp add: e_def A_def)
  have KA: "\<bar>K * a\<bar> = K * A" by (simp add: abs_mult A_def K_def)
  have "s + q = K * a + (s - real k * a) + (q - a)" by (simp add: K1 algebra_simps)
  then have "\<bar>s + q\<bar> \<le> \<bar>K * a\<bar> + \<bar>s - real k * a\<bar> + \<bar>q - a\<bar>"
    by linarith
  then have sq: "\<bar>s + q\<bar> \<le> K * A + E + e" by (simp add: KA E_def e_def)
  have "s1 - K * a = (s1 - (s + q)) + (s - real k * a) + (q - a)" by (simp add: K1 algebra_simps)
  then have "\<bar>s1 - K * a\<bar> \<le> \<bar>s1 - (s + q)\<bar> + \<bar>s - real k * a\<bar> + \<bar>q - a\<bar>"
    by linarith
  also have "\<dots> \<le> u * (K * A + E + e) + E + e"
    using s1 mult_left_mono [OF sq u] by (simp add: E_def e_def)
  also have "\<dots> = u * K * A + (1 + u) * (E + e)" by (simp add: algebra_simps)
  also have "\<dots> \<le> u * K * A + (1 + u) * ((G - 1) * (real k * A) + u * A)"
    using Eb eb u by (intro add_left_mono mult_left_mono add_mono) simp_all
  also have "\<dots> \<le> ((1 + u) * G - 1) * (K * A)"
  proof -
    have "((1 + u) * G - 1) * (K * A) - (u * K * A + (1 + u) * ((G - 1) * (real k * A) + u * A))
        = A * (1 + u) * (G - (1 + u))"
      by (simp add: K1 algebra_simps)
    moreover have "0 \<le> A * (1 + u) * (G - (1 + u))"
      using A0 u G1 by (intro mult_nonneg_nonneg) simp_all
    ultimately show ?thesis by linarith
  qed
  finally show ?thesis by (simp add: K_def A_def G_def)
qed

lemma value_step_bound:
  fixes u p c s1 v :: real and k :: nat
  assumes u: "0 \<le> u" and p: "0 < p"
    and s1: "\<bar>s1 - real (Suc k) * (c / p)\<bar> \<le> ((1 + u) ^ (k + 2) - 1) * (real (Suc k) * \<bar>c / p\<bar>)"
    and v: "\<bar>v - s1 * p\<bar> \<le> u * \<bar>s1 * p\<bar>"
  shows "\<bar>v - real (Suc k) * c\<bar> \<le> ((1 + u) ^ (k + 3) - 1) * (real (Suc k) * \<bar>c\<bar>)"
proof -
  define G where "G = (1 + u) ^ (k + 2)"
  define K where "K = real (Suc k)"
  define C where "C = \<bar>c\<bar>"
  define D where "D = \<bar>s1 * p - K * c\<bar>"
  have K0: "0 \<le> K" by (simp add: K_def)
  have C0: "0 \<le> C" by (simp add: C_def)
  have pc: "p * \<bar>c / p\<bar> = C" using p by (simp add: C_def abs_divide)
  have "s1 * p - K * c = p * (s1 - K * (c / p))" using p by (simp add: field_simps)
  then have "D = p * \<bar>s1 - K * (c / p)\<bar>" using p by (simp add: D_def abs_mult)
  also have "\<dots> \<le> p * ((G - 1) * (K * \<bar>c / p\<bar>))"
    using s1 p by (intro mult_left_mono) (simp_all add: G_def K_def)
  also have "\<dots> = (G - 1) * (K * (p * \<bar>c / p\<bar>))" by (simp only: ac_simps)
  also have "\<dots> = (G - 1) * (K * C)" by (simp only: pc)
  finally have Db: "D \<le> (G - 1) * (K * C)" .
  have "s1 * p = K * c + (s1 * p - K * c)" by simp
  then have "\<bar>s1 * p\<bar> \<le> \<bar>K * c\<bar> + \<bar>s1 * p - K * c\<bar>"
    by linarith
  then have sp: "\<bar>s1 * p\<bar> \<le> K * C + D" using K0 by (simp add: abs_mult C_def D_def)
  have "v - K * c = (v - s1 * p) + (s1 * p - K * c)" by simp
  then have "\<bar>v - K * c\<bar> \<le> \<bar>v - s1 * p\<bar> + \<bar>s1 * p - K * c\<bar>"
    by linarith
  also have "\<dots> \<le> u * (K * C + D) + D"
    using v mult_left_mono [OF sp u] by (simp add: D_def)
  also have "\<dots> = u * (K * C) + (1 + u) * D" by (simp add: algebra_simps)
  also have "\<dots> \<le> u * (K * C) + (1 + u) * ((G - 1) * (K * C))"
    using Db u by (intro add_left_mono mult_left_mono) simp_all
  also have "\<dots> = ((1 + u) * G - 1) * (K * C)" by (simp add: algebra_simps)
  finally show ?thesis by (simp add: K_def C_def G_def numeral_3_eq_3 numeral_2_eq_2)
qed

lemma fl64_u64: "\<bar>fl64 x - x\<bar> \<le> u64 * \<bar>x\<bar>"
  using fl64_error [of x] by (simp add: u64_def)

lemma u64_nonneg: "0 \<le> u64"
  by (simp add: u64_def)

lemma body_f64_Inr:
  "body_f64 c dp st = Inr st' \<longleftrightarrow>
     snd dp \<noteq> 0 \<and>
     st' = \<lparr>shares_owned = fl64 (shares_owned st + fl64 (c / snd dp)),
            total_invested = total_invested st + c,
            portfolio_values = portfolio_values st @
              [fl64 (fl64 (shares_owned st + fl64 (c / snd dp)) * snd dp)],
            invested_values = invested_values st @ [total_invested st + c],
            dates = dates st @ [fst dp]\<rparr>"
  by (auto simp: body_f64_def Let_def)

lemma loop_f64_constant_price:
  assumes "\<forall>r \<in> set ps. snd r = p" and "0 < p"
    and "\<bar>shares_owned st - real k * (c / p)\<bar> \<le> ((1 + u64) ^ (k + 1) - 1) * (real k * \<bar>c / p\<bar>)"
    and "total_invested st = real k * c"
  shows "\<exists>st' iv pv. loop_f64 c ps st = Inr st' \<and> dates st' = dates st @ map fst ps \<and>
           invested_values st' = invested_values st @ iv \<and>
           portfolio_values st' = portfolio_values st @ pv \<and>
           length iv = length ps \<and> length pv = length ps \<and>
           (\<forall>j < length ps. iv ! j = real (k + Suc j) * c \<and>
              \<bar>pv ! j - iv ! j\<bar> \<le> ((1 + u64) ^ (k + j + 3) - 1) * \<bar>iv ! j\<bar>)"
  using assms
proof (induction ps arbitrary: st k)
  case Nil
  then show ?case by simp
next
  case (Cons dp ps)
  from Cons.prems(1) have pe: "snd dp = p" and rest: "\<forall>r \<in> set ps. snd r = p" by simp_all
  define q where "q = fl64 (c / p)"
  define s1 where "s1 = fl64 (shares_owned st + q)"
  define v where "v = fl64 (s1 * p)"
  define st1 where "st1 = \<lparr>shares_owned = s1, total_invested = total_invested st + c,
      portfolio_values = portfolio_values st @ [v],
      invested_values = invested_values st @ [total_invested st + c],
      dates = dates st @ [fst dp]\<rparr>"
  have b: "body_f64 c dp st = Inr st1"
    using Cons.prems(2) pe by (simp add: body_f64_Inr st1_def s1_def q_def v_def)
  have sb: "\<bar>s1 - real (Suc k) * (c / p)\<bar>
      \<le> ((1 + u64) ^ (k + 2) - 1) * (real (Suc k) * \<bar>c / p\<bar>)"
  proof (rule shares_step_bound [OF u64_nonneg _ Cons.prems(3)])
    show "\<bar>q - c / p\<bar> \<le> u64 * \<bar>c / p\<bar>" unfolding q_def by (rule fl64_u64)
    show "\<bar>s1 - (shares_owned st + q)\<bar> \<le> u64 * \<bar>shares_owned st + q\<bar>"
      unfolding s1_def by (rule fl64_u64)
  qed
  have vb: "\<bar>v - real (Suc k) * c\<bar> \<le> ((1 + u64) ^ (k + 3) - 1) * (real (Suc k) * \<bar>c\<bar>)"
  proof (rule value_step_bound [OF u64_nonneg Cons.prems(2) sb])
    show "\<bar>v - s1 * p\<bar> \<le> u64 * \<bar>s1 * p\<bar>" unfolding v_def by (rule fl64_u64)
  qed
  have sb': "\<bar>shares_owned st1 - real (Suc k) * (c / p)\<bar>
      \<le> ((1 + u64) ^ (Suc k + 1) - 1) * (real (Suc k) * \<bar>c / p\<bar>)"
    using sb by (simp add: st1_def)
  have t1: "total_invested st1 = real (Suc k) * c"
    using Cons.prems(4) by (simp add: st1_def algebra_simps)
  from Cons.IH [OF rest Cons.prems(2) sb' t1] obtain st' iv pv where
    l: "loop_f64 c ps st1 = Inr st'" and d: "dates st' = dates st1 @ map fst ps"
    and i: "invested_values st' = invested_values st1 @ iv"
    and pv: "portfolio_values st' = portfolio_values st1 @ pv"
    and len: "length iv = length ps" "length pv = length ps"
    and each: "\<forall>j < length ps. iv ! j = real (Suc k + Suc j) * c \<and>
              \<bar>pv ! j - iv ! j\<bar> \<le> ((1 + u64) ^ (Suc k + j + 3) - 1) * \<bar>iv ! j\<bar>"
    by blast
  define iv' where "iv' = (real (Suc k) * c) # iv"
  define pv' where "pv' = v # pv"
  have "loop_f64 c (dp # ps) st = Inr st'" using b l by simp
  moreover have "dates st' = dates st @ map fst (dp # ps)" using d by (simp add: st1_def)
  moreover have "invested_values st' = invested_values st @ iv'"
    using i Cons.prems(4) by (simp add: st1_def iv'_def algebra_simps)
  moreover have "portfolio_values st' = portfolio_values st @ pv'"
    using pv by (simp add: st1_def pv'_def)
  moreover have "length iv' = length (dp # ps)" "length pv' = length (dp # ps)"
    using len by (simp_all add: iv'_def pv'_def)
  moreover have "\<forall>j < length (dp # ps). iv' ! j = real (k + Suc j) * c \<and>
              \<bar>pv' ! j - iv' ! j\<bar> \<le> ((1 + u64) ^ (k + j + 3) - 1) * \<bar>iv' ! j\<bar>"
  proof (intro allI impI)
    fix j assume j: "j < length (dp # ps)"
    show "iv' ! j = real (k + Suc j) * c \<and>
              \<bar>pv' ! j - iv' ! j\<bar> \<le> ((1 + u64) ^ (k + j + 3) - 1) * \<bar>iv' ! j\<bar>"
    proof (cases j)
      case 0
      have "\<bar>real (Suc k) * c\<bar> = real (Suc k) * \<bar>c\<bar>" by (simp add: abs_mult)
      with vb 0 show ?thesis by (simp add: iv'_def pv'_def)
    next
      case (Suc j')
      with j have "j' < length ps" by simp
      with each have "iv ! j' = real (Suc k + Suc j') * c \<and>
          \<bar>pv ! j' - iv ! j'\<bar> \<le> ((1 + u64) ^ (Suc k + j' + 3) - 1) * \<bar>iv ! j'\<bar>"
        by blast
      with Suc show ?thesis by (auto simp: iv'_def pv'_def)
    qed
  qed
  ultimately show ?case by blast
qed

text \<open>
  C6, as the code has it. For every contribution \<open>c\<close> and every column whose defined
  prices all equal the same positive \<open>p\<close>: in float64 arithmetic the simulator returns
  a row for each defined price, with the invested total \<open>c * (i + 1)\<close> in row \<open>i\<close>
  and a value that differs from it by at most \<open>(1 + 2^-53)^(i + 3) - 1\<close> of its size;
  in exact arithmetic the value and the invested total are equal in every row.
\<close>

theorem constant_price_value_near_invested:
  assumes "data symbol = Some col"
    and "\<forall>r \<in> set (dropna col). snd r = p"
    and "0 < p"
  shows "(\<exists>rows. calculate_portfolio_f64 data symbol c = Inr rows \<and>
            length rows = length (dropna col) \<and>
            (\<forall>i < length rows.
               fst (snd (rows ! i)) = real (Suc i) * c \<and>
               \<bar>snd (snd (rows ! i)) - fst (snd (rows ! i))\<bar>
                 \<le> ((1 + u64) ^ (i + 3) - 1) * \<bar>fst (snd (rows ! i))\<bar>)) \<and>
         (\<exists>rows. calculate_portfolio data symbol c = Inr rows \<and>
            length rows = length (dropna col) \<and>
            (\<forall>r \<in> set rows. snd (snd r) = fst (snd r)))"
proof
  let ?ps = "dropna col"
  have "\<bar>shares_owned init_state - real 0 * (c / p)\<bar>
      \<le> ((1 + u64) ^ (0 + 1) - 1) * (real 0 * \<bar>c / p\<bar>)"
    and "total_invested init_state = real 0 * c"
    by (simp_all add: init_state_def)
  from loop_f64_constant_price [OF assms(2,3) this] obtain st iv pv where
    l: "loop_f64 c ?ps init_state = Inr st" and d: "dates st = map fst ?ps"
    and i: "invested_values st = iv" and v: "portfolio_values st = pv"
    and len: "length iv = length ?ps" "length pv = length ?ps"
    and each: "\<forall>j < length ?ps. iv ! j = real (0 + Suc j) * c \<and>
              \<bar>pv ! j - iv ! j\<bar> \<le> ((1 + u64) ^ (0 + j + 3) - 1) * \<bar>iv ! j\<bar>"
    by (auto simp: init_state_def)
  have cp: "calculate_portfolio_f64 data symbol c = Inr (to_frame st)"
    using assms(1) l by (simp add: calculate_portfolio_f64_def)
  have lr: "length (to_frame st) = length ?ps"
    using d i v len by (simp add: to_frame_def)
  have "fst (snd (to_frame st ! j)) = real (Suc j) * c \<and>
               \<bar>snd (snd (to_frame st ! j)) - fst (snd (to_frame st ! j))\<bar>
                 \<le> ((1 + u64) ^ (j + 3) - 1) * \<bar>fst (snd (to_frame st ! j))\<bar>"
    if "j < length (to_frame st)" for j
  proof -
    from that lr have j: "j < length ?ps" by simp
    then have "to_frame st ! j = (fst (?ps ! j), iv ! j, pv ! j)"
      using d i v len by (simp add: to_frame_def)
    moreover from each j have "iv ! j = real (0 + Suc j) * c \<and>
              \<bar>pv ! j - iv ! j\<bar> \<le> ((1 + u64) ^ (0 + j + 3) - 1) * \<bar>iv ! j\<bar>"
      by blast
    ultimately show ?thesis by auto
  qed
  with cp lr show "\<exists>rows. calculate_portfolio_f64 data symbol c = Inr rows \<and>
            length rows = length (dropna col) \<and>
            (\<forall>i < length rows.
               fst (snd (rows ! i)) = real (Suc i) * c \<and>
               \<bar>snd (snd (rows ! i)) - fst (snd (rows ! i))\<bar>
                 \<le> ((1 + u64) ^ (i + 3) - 1) * \<bar>fst (snd (rows ! i))\<bar>)"
    by blast
next
  show "\<exists>rows. calculate_portfolio data symbol c = Inr rows \<and>
            length rows = length (dropna col) \<and>
            (\<forall>r \<in> set rows. snd (snd r) = fst (snd r))"
    using assms by (rule constant_price_value_equals_invested)
qed

text \<open>C6, an instance: the price 3 five times, contribution 100.\<close>

theorem constant_price_value_near_invested_witness:
  "(\<exists>rows. calculate_portfolio_f64
       (Map.empty(''A'' \<mapsto> [((0, 1), Some 3), ((1, 1), Some 3), ((2, 1), Some 3),
                               ((3, 1), Some 3), ((4, 1), Some 3)])) ''A'' 100 = Inr rows \<and>
      length rows = 5 \<and> fst (snd (rows ! 4)) = 500 \<and>
      \<bar>snd (snd (rows ! 4)) - 500\<bar> \<le> ((1 + u64) ^ 7 - 1) * 500) \<and>
   (\<exists>rows. calculate_portfolio
       (Map.empty(''A'' \<mapsto> [((0, 1), Some 3), ((1, 1), Some 3), ((2, 1), Some 3),
                               ((3, 1), Some 3), ((4, 1), Some 3)])) ''A'' 100 = Inr rows \<and>
      length rows = 5)"
proof -
  let ?col = "[((0::nat, 1::nat), Some (3::real)), ((1, 1), Some 3), ((2, 1), Some 3),
                               ((3, 1), Some 3), ((4, 1), Some 3)]"
  let ?D = "Map.empty(''A'' \<mapsto> ?col)"
  have h1: "?D ''A'' = Some ?col" by simp
  have h2: "\<forall>r \<in> set (dropna ?col). snd r = 3" by simp
  have h3: "(0::real) < 3" by simp
  note t = constant_price_value_near_invested [of ?D "''A''" ?col 3 100, OF h1 h2 h3]
  from t obtain rows where r: "calculate_portfolio_f64 ?D ''A'' 100 = Inr rows"
    and len: "length rows = length (dropna ?col)"
    and each: "\<forall>i < length rows.
               fst (snd (rows ! i)) = real (Suc i) * 100 \<and>
               \<bar>snd (snd (rows ! i)) - fst (snd (rows ! i))\<bar>
                 \<le> ((1 + u64) ^ (i + 3) - 1) * \<bar>fst (snd (rows ! i))\<bar>"
    by blast
  from len have l5: "length rows = 5" by simp
  then have "(4::nat) < length rows" by simp
  with each have "fst (snd (rows ! 4)) = real (Suc 4) * 100 \<and>
               \<bar>snd (snd (rows ! 4)) - fst (snd (rows ! 4))\<bar>
                 \<le> ((1 + u64) ^ (4 + 3) - 1) * \<bar>fst (snd (rows ! 4))\<bar>"
    by blast
  then have "fst (snd (rows ! 4)) = 500 \<and>
      \<bar>snd (snd (rows ! 4)) - 500\<bar> \<le> ((1 + u64) ^ 7 - 1) * 500"
    by auto
  with r l5 have A: "\<exists>rows. calculate_portfolio_f64 ?D ''A'' 100 = Inr rows \<and>
      length rows = 5 \<and> fst (snd (rows ! 4)) = 500 \<and>
      \<bar>snd (snd (rows ! 4)) - 500\<bar> \<le> ((1 + u64) ^ 7 - 1) * 500"
    by blast
  from t obtain rows' where "calculate_portfolio ?D ''A'' 100 = Inr rows'"
    and "length rows' = length (dropna ?col)"
    by blast
  then have B: "\<exists>rows. calculate_portfolio ?D ''A'' 100 = Inr rows \<and> length rows = 5"
    by simp
  from A B show ?thesis by (rule conjI)
qed

text \<open>C6 as stated fails: with the price 3.0 five times and the contribution 100, the
  fifth row has the invested total 500 and the value 500.00000000000006 (one unit in the
  last place above 500).\<close>

theorem constant_price_f64_counterexample:
  "calculate_portfolio_f64
     (Map.empty(''A'' \<mapsto> [((0, 1), Some 3), ((1, 1), Some 3), ((2, 1), Some 3),
                             ((3, 1), Some 3), ((4, 1), Some 3)])) ''A'' 100
   = Inr [((0, 1), 100, 100), ((1, 1), 200, 200), ((2, 1), 300, 300), ((3, 1), 400, 400),
          ((4, 1), 500, 500 + 1 / 2 ^ 44)]"
  by (simp add: calculate_portfolio_f64_def body_f64_def init_state_def to_frame_def
      fl64_def ilog2_def bitlen_numeral_eval pow2_def round_half_even_def Let_def)

section \<open>Properties of the deduplication\<close>

lemma update_fresh: "k \<notin> fst ` set al \<Longrightarrow> AList.update k v al = al @ [(k, v)]"
  by (induction al) auto

lemma keep_first_subseq: "subseq (keep_first seen ts) ts"
  by (induction ts arbitrary: seen) auto

lemma keep_first_subset: "set (keep_first seen ts) \<subseteq> set ts"
  by (induction ts arbitrary: seen) auto

lemma keep_first_unseen: "x \<in> set (keep_first seen ts) \<Longrightarrow> snd x \<notin> seen"
  by (induction ts arbitrary: seen) (auto split: if_splits)

lemma keep_first_distinct: "distinct (map snd (keep_first seen ts))"
proof (induction ts arbitrary: seen)
  case Nil
  show ?case by simp
next
  case (Cons ns ts)
  show ?case
  proof (cases "snd ns \<in> seen")
    case True
    with Cons.IH show ?thesis by simp
  next
    case False
    have "snd ns \<notin> snd ` set (keep_first (insert (snd ns) seen) ts)"
      using keep_first_unseen [of _ "insert (snd ns) seen" ts] by fastforce
    with False Cons.IH show ?thesis by simp
  qed
qed

lemma dedup_loop_keep_first:
  "distinct (map fst ts) \<Longrightarrow> fst ` set u \<inter> fst ` set ts = {} \<Longrightarrow>
     fst (dedup_loop ts (u, seen)) = u @ keep_first seen ts"
proof (induction ts arbitrary: u seen)
  case Nil
  show ?case by simp
next
  case (Cons ns ts)
  from Cons.prems have d: "distinct (map fst ts)" and fresh: "fst ns \<notin> fst ` set ts"
    and nu: "fst ns \<notin> fst ` set u" and dj: "fst ` set u \<inter> fst ` set ts = {}"
    by auto
  show ?case
  proof (cases "snd ns \<in> seen")
    case True
    with Cons.IH [OF d dj] show ?thesis by simp
  next
    case False
    have up: "AList.update (fst ns) (snd ns) u = u @ [ns]"
      using update_fresh [OF nu] by simp
    have dj': "fst ` set (u @ [ns]) \<inter> fst ` set ts = {}"
      using dj fresh by auto
    from Cons.IH [OF d dj', of "insert (snd ns) seen"] False up show ?thesis by simp
  qed
qed

lemma keep_first_member:
  "distinct ts \<Longrightarrow> i < length ts \<Longrightarrow>
     ts ! i \<in> set (keep_first seen ts) \<longleftrightarrow>
       snd (ts ! i) \<notin> seen \<and> (\<forall>j<i. snd (ts ! j) \<noteq> snd (ts ! i))"
proof (induction ts arbitrary: seen i)
  case Nil
  then show ?case by simp
next
  case (Cons ns ts)
  from Cons.prems have d: "distinct ts" and nin: "ns \<notin> set ts" by auto
  show ?case
  proof (cases i)
    case 0
    have "ns \<notin> set (keep_first seen ts)"
      using keep_first_subset [of seen ts] nin by auto
    with 0 show ?thesis by auto
  next
    case (Suc k)
    with Cons.prems have k: "k < length ts" by simp
    then have ne: "ts ! k \<noteq> ns" using nin by auto
    show ?thesis
    proof (cases "snd ns \<in> seen")
      case True
      with Cons.IH [OF d k, of seen] Suc show ?thesis
        by (auto simp: All_less_Suc2)
    next
      case False
      with Cons.IH [OF d k, of "insert (snd ns) seen"] Suc ne show ?thesis
        by (auto simp: All_less_Suc2)
    qed
  qed
qed

text \<open>
  C10. The items of a dict have different names. On such a list the deduplication
  returns entries with pairwise different symbols, in their original relative order, and
  an entry is kept exactly when no earlier entry carries its symbol.
\<close>

theorem deduplicate_keeps_first:
  assumes "distinct (map fst selected_tickers)"
  shows "distinct (map snd (deduplicate selected_tickers)) \<and>
         subseq (deduplicate selected_tickers) selected_tickers \<and>
         (\<forall>i<length selected_tickers.
            selected_tickers ! i \<in> set (deduplicate selected_tickers) \<longleftrightarrow>
              (\<forall>j<i. snd (selected_tickers ! j) \<noteq> snd (selected_tickers ! i)))"
proof -
  have eq: "deduplicate selected_tickers = keep_first {} selected_tickers"
    using dedup_loop_keep_first [OF assms, of "[]" "{}"] by (simp add: deduplicate_def)
  have "distinct selected_tickers"
    using assms by (rule distinct_map [THEN iffD1, THEN conjunct1])
  then show ?thesis
    unfolding eq
    by (simp add: keep_first_distinct keep_first_subseq keep_first_member)
qed

text \<open>C10, an instance: the third entry repeats the symbol of the first.\<close>

theorem deduplicate_keeps_first_witness:
  "distinct (map snd (deduplicate [(''a'', ''X''), (''b'', ''Y''), (''c'', ''X'')])) \<and>
   subseq (deduplicate [(''a'', ''X''), (''b'', ''Y''), (''c'', ''X'')]) [(''a'', ''X''), (''b'', ''Y''), (''c'', ''X'')] \<and>
   deduplicate [(''a'', ''X''), (''b'', ''Y''), (''c'', ''X'')] = [(''a'', ''X''), (''b'', ''Y'')]"
  using deduplicate_keeps_first [of "[(''a'', ''X''), (''b'', ''Y''), (''c'', ''X'')]"]
  by (simp add: deduplicate_def)

section \<open>Properties of the resampler\<close>

lemma first_valid_single: "first_valid [first_valid vs] = first_valid vs"
  by (cases "first_valid vs") simp_all

lemma filter_eq_upt: "filter (\<lambda>k. k = m) [lo..<hi] = (if lo \<le> m \<and> m < hi then [m] else [])"
  by (induction hi) auto

lemma Min_upt: "lo \<le> hi \<Longrightarrow> Min (set [lo..<Suc hi]) = lo"
  by (rule Min_eqI) (simp_all del: upt_Suc)

lemma Max_upt: "lo \<le> (hi::nat) \<Longrightarrow> Max (set [lo..<Suc hi]) = hi"
  by (rule Max_eqI) (simp_all del: upt_Suc)

lemma resample_months:
  "map (\<lambda>r. month_of (fst r)) (map (\<lambda>m. (month_start m, f m)) ms) = ms"
  by (simp add: month_of_def month_start_def comp_def)

lemma in_month_resampled:
  "in_month m (map (\<lambda>k. (month_start k, f k)) [lo..<hi])
     = (if lo \<le> m \<and> m < hi then [(month_start m, f m)] else [])"
proof -
  have "in_month m (map (\<lambda>k. (month_start k, f k)) [lo..<hi])
      = map (\<lambda>k. (month_start k, f k)) (filter (\<lambda>k. k = m) [lo..<hi])"
    by (simp add: in_month_def filter_map comp_def month_of_def month_start_def)
  then show ?thesis by (simp add: filter_eq_upt)
qed

lemma months_range:
  assumes "s \<noteq> []"
  shows "Min (set (map (\<lambda>r. month_of (fst r)) s)) \<le> Max (set (map (\<lambda>r. month_of (fst r)) s))"
proof -
  let ?A = "set (map (\<lambda>r. month_of (fst r)) s)"
  from assms obtain x where x: "x \<in> ?A" by (cases s) auto
  have "Min ?A \<le> x" using x by (intro Min_le) simp_all
  moreover have "x \<le> Max ?A" using x by (intro Max_ge) simp_all
  ultimately show ?thesis by simp
qed

text \<open>
  C7. Resampling is idempotent: resampling the output of the resampler returns it
  unchanged. (The output has one row for each month between the first and the last
  observation, labelled with the first day of the month.)
\<close>

theorem resample_first_idempotent: "resample_first (resample_first s) = resample_first s"
proof (cases "s = []")
  case True
  then show ?thesis by (simp add: resample_first_def)
next
  case False
  define lo where "lo = Min (set (map (\<lambda>r. month_of (fst r)) s))"
  define hi where "hi = Max (set (map (\<lambda>r. month_of (fst r)) s))"
  define f where "f = (\<lambda>m. first_valid (map snd (in_month m s)))"
  have le: "lo \<le> hi" unfolding lo_def hi_def by (rule months_range [OF False])
  have r: "resample_first s = map (\<lambda>m. (month_start m, f m)) [lo..<Suc hi]"
    using False by (simp add: resample_first_def lo_def hi_def f_def Let_def)
  have ne: "map (\<lambda>m. (month_start m, f m)) [lo..<Suc hi] \<noteq> []"
    using le by simp
  have "resample_first (map (\<lambda>m. (month_start m, f m)) [lo..<Suc hi])
      = map (\<lambda>m. (month_start m,
            first_valid (map snd (in_month m (map (\<lambda>k. (month_start k, f k)) [lo..<Suc hi])))))
          [lo..<Suc hi]"
    unfolding resample_first_def Let_def resample_months
    using ne le by (simp only: if_False Min_upt Max_upt)
  also have "\<dots> = map (\<lambda>m. (month_start m, f m)) [lo..<Suc hi]"
    by (rule map_cong) (simp_all add: in_month_resampled f_def first_valid_single del: upt_Suc)
  finally show ?thesis by (simp only: r)
qed

lemma first_valid_None: "first_valid vs = None \<longleftrightarrow> (\<forall>q. Some q \<notin> set vs)"
  by (induction vs rule: first_valid.induct) auto

lemma first_valid_earliest:
  "sorted_wrt (<) (map fst (xs :: ('a::linorder \<times> real option) list)) \<Longrightarrow>
     first_valid (map snd xs) = Some p \<longleftrightarrow>
       (\<exists>t. (t, Some p) \<in> set xs \<and> (\<forall>t' q. (t', Some q) \<in> set xs \<longrightarrow> t \<le> t'))"
proof (induction xs)
  case Nil
  show ?case by simp
next
  case (Cons x xs)
  obtain t0 v0 where x: "x = (t0, v0)" by (cases x)
  from Cons.prems x have later: "\<forall>r \<in> set xs. t0 < fst r"
    and srt: "sorted_wrt (<) (map fst xs)" by auto
  show ?case
  proof (cases v0)
    case None
    have "first_valid (map snd (x # xs)) = first_valid (map snd xs)"
      using x None by simp
    moreover have "(\<exists>t. (t, Some p) \<in> set (x # xs) \<and> (\<forall>t' q. (t', Some q) \<in> set (x # xs) \<longrightarrow> t \<le> t'))
        \<longleftrightarrow> (\<exists>t. (t, Some p) \<in> set xs \<and> (\<forall>t' q. (t', Some q) \<in> set xs \<longrightarrow> t \<le> t'))"
      using x None by auto
    ultimately show ?thesis using Cons.IH [OF srt] by simp
  next
    case (Some p0)
    have fv: "first_valid (map snd (x # xs)) = Some p0"
      using x Some by simp
    have "(\<exists>t. (t, Some p) \<in> set (x # xs) \<and> (\<forall>t' q. (t', Some q) \<in> set (x # xs) \<longrightarrow> t \<le> t'))
        \<longleftrightarrow> p = p0"
    proof
      assume "\<exists>t. (t, Some p) \<in> set (x # xs) \<and> (\<forall>t' q. (t', Some q) \<in> set (x # xs) \<longrightarrow> t \<le> t')"
      then obtain t where mem: "(t, Some p) \<in> set (x # xs)"
        and least: "\<forall>t' q. (t', Some q) \<in> set (x # xs) \<longrightarrow> t \<le> t'" by blast
      have "(t0, Some p0) \<in> set (x # xs)" using x Some by simp
      with least have "t \<le> t0" by blast
      show "p = p0"
      proof (rule ccontr)
        assume "p \<noteq> p0"
        with mem x Some have "(t, Some p) \<in> set xs" by auto
        with later have "t0 < t" by auto
        with \<open>t \<le> t0\<close> show False by simp
      qed
    next
      assume "p = p0"
      have "\<forall>t' q. (t', Some q) \<in> set (x # xs) \<longrightarrow> t0 \<le> t'"
        using later x by (auto simp: less_imp_le)
      with \<open>p = p0\<close> x Some show "\<exists>t. (t, Some p) \<in> set (x # xs) \<and> (\<forall>t' q. (t', Some q) \<in> set (x # xs) \<longrightarrow> t \<le> t')"
        by auto
    qed
    with fv show ?thesis by auto
  qed
qed

lemma in_month_set: "set (in_month m s) = {r \<in> set s. month_of (fst r) = m}"
  by (auto simp: in_month_def)

lemma in_month_sorted:
  "sorted_wrt (<) (map fst s) \<Longrightarrow> sorted_wrt (<) (map fst (in_month m s))"
  by (induction s) (auto simp: in_month_def)

lemma resample_first_member:
  "(d, v) \<in> set (resample_first s) \<longleftrightarrow>
     (\<exists>m. (\<exists>r \<in> set s. month_of (fst r) \<le> m) \<and> (\<exists>r \<in> set s. m \<le> month_of (fst r)) \<and>
        d = month_start m \<and> v = first_valid (map snd (in_month m s)))"
proof (cases "s = []")
  case True
  then show ?thesis by (simp add: resample_first_def)
next
  case False
  let ?A = "set (map (\<lambda>r. month_of (fst r)) s)"
  have fin: "finite ?A" and ne: "?A \<noteq> {}" using False by simp_all
  have lo: "Min ?A \<le> m \<longleftrightarrow> (\<exists>r \<in> set s. month_of (fst r) \<le> m)" for m
    using Min_le_iff [OF fin ne, of m] by auto
  have hi: "m \<le> Max ?A \<longleftrightarrow> (\<exists>r \<in> set s. m \<le> month_of (fst r))" for m
    using Max_ge_iff [OF fin ne, of m] by auto
  have "(d, v) \<in> set (resample_first s) \<longleftrightarrow>
      (\<exists>m. Min ?A \<le> m \<and> m \<le> Max ?A \<and> d = month_start m \<and> v = first_valid (map snd (in_month m s)))"
    using False by (auto simp: resample_first_def Let_def simp del: upt_Suc)
  then show ?thesis by (simp only: lo hi)
qed

text \<open>
  C9, as the code has it. For a column in chronological order: a row of the resampled
  column with a defined price carries the first day of a month as its label, and its
  price is the price of the earliest observation of that month that has one; a row with a
  missing price stands for a month, between the month of some observation and the month
  of some other, in which no observation has a price.
\<close>

theorem resample_first_rows:
  assumes "sorted_wrt (<) (map fst s)"
  shows "((d, Some p) \<in> set (resample_first s) \<longleftrightarrow>
           (\<exists>t. (t, Some p) \<in> set s \<and> d = month_start (month_of t) \<and>
              (\<forall>t' q. (t', Some q) \<in> set s \<and> month_of t' = month_of t \<longrightarrow> t \<le> t'))) \<and>
         ((d, None) \<in> set (resample_first s) \<longleftrightarrow>
           (\<exists>m. d = month_start m \<and>
              (\<exists>r \<in> set s. month_of (fst r) \<le> m) \<and> (\<exists>r \<in> set s. m \<le> month_of (fst r)) \<and>
              (\<forall>t q. (t, Some q) \<in> set s \<longrightarrow> month_of t \<noteq> m)))"
proof
  have fv: "first_valid (map snd (in_month m s)) = Some p \<longleftrightarrow>
      (\<exists>t. (t, Some p) \<in> set s \<and> month_of t = m \<and>
         (\<forall>t' q. (t', Some q) \<in> set s \<and> month_of t' = m \<longrightarrow> t \<le> t'))" for m
    using first_valid_earliest [OF in_month_sorted [OF assms], of m p]
    by (auto simp: in_month_set)
  show "(d, Some p) \<in> set (resample_first s) \<longleftrightarrow>
           (\<exists>t. (t, Some p) \<in> set s \<and> d = month_start (month_of t) \<and>
              (\<forall>t' q. (t', Some q) \<in> set s \<and> month_of t' = month_of t \<longrightarrow> t \<le> t'))"
    (is "?L \<longleftrightarrow> ?R")
  proof
    assume ?L
    then obtain m where "d = month_start m" and "Some p = first_valid (map snd (in_month m s))"
      by (auto simp: resample_first_member)
    with fv [of m] show ?R by metis
  next
    assume ?R
    then obtain t where t: "(t, Some p) \<in> set s" and d: "d = month_start (month_of t)"
      and least: "\<forall>t' q. (t', Some q) \<in> set s \<and> month_of t' = month_of t \<longrightarrow> t \<le> t'"
      by blast
    from t least have "first_valid (map snd (in_month (month_of t) s)) = Some p"
      using fv [of "month_of t"] by blast
    moreover from t have "\<exists>r \<in> set s. month_of (fst r) \<le> month_of t"
      and "\<exists>r \<in> set s. month_of t \<le> month_of (fst r)" by force+
    ultimately show ?L using d by (auto simp: resample_first_member)
  qed
  have nv: "first_valid (map snd (in_month m s)) = None \<longleftrightarrow>
      (\<forall>t q. (t, Some q) \<in> set s \<longrightarrow> month_of t \<noteq> m)" for m
    by (force simp: first_valid_None in_month_set)
  show "(d, None) \<in> set (resample_first s) \<longleftrightarrow>
           (\<exists>m. d = month_start m \<and>
              (\<exists>r \<in> set s. month_of (fst r) \<le> m) \<and> (\<exists>r \<in> set s. m \<le> month_of (fst r)) \<and>
              (\<forall>t q. (t, Some q) \<in> set s \<longrightarrow> month_of t \<noteq> m))"
    unfolding resample_first_member using nv by (metis (no_types, lifting))
qed

text \<open>C9 as stated fails: the earliest observation of the first month is on day 2, the
  row that stands for it is labelled day 1; and the second month, which has no
  observation, is a row of the output (with a missing price).\<close>

theorem resample_first_label_counterexample:
  "resample_first [((0, 2), Some 10), ((0, 3), Some 11), ((2, 5), None), ((2, 7), Some 3)]
     = [((0, 1), Some 10), ((1, 1), None), ((2, 1), Some 3)]"
  by (simp add: resample_first_def month_of_def month_start_def in_month_def upt_rec)

text \<open>C9, an instance: the observations of day 2 and day 3 of the first month give
  one row, labelled day 1, with the price of day 2.\<close>

theorem resample_first_rows_witness:
  "sorted_wrt (<) (map fst [((0::nat, 2::nat), Some (10::real)), ((0, 3), Some 11), ((2, 7), Some 3)]) \<and>
   ((0, 1), Some 10) \<in> set (resample_first [((0, 2), Some 10), ((0, 3), Some 11), ((2, 7), Some 3)])"
proof -
  let ?s = "[((0::nat, 2::nat), Some (10::real)), ((0, 3), Some 11), ((2, 7), Some 3)]"
  have h: "sorted_wrt (<) (map fst ?s)" by simp
  have "((0, 2), Some 10) \<in> set ?s \<and> (0, 1) = month_start (month_of (0, 2)) \<and>
      (\<forall>t' q. (t', Some q) \<in> set ?s \<and> month_of t' = month_of (0, 2) \<longrightarrow> (0, 2) \<le> t')"
    by (auto simp: month_of_def month_start_def)
  then have "((0, 1), Some 10) \<in> set (resample_first ?s)"
    using resample_first_rows [OF h, of "(0, 1)" 10] by blast
  with h show ?thesis by simp
qed

section \<open>Properties of the aggregator\<close>

subsection \<open>The loop over the tickers\<close>

lemma set_column_index: "index (set_column f name s) = index f"
  by (simp add: set_column_def)

lemma set_column_not_empty: "index f \<noteq> [] \<Longrightarrow> \<not> df_empty (set_column f name s)"
  by (cases "columns f") (auto simp: set_column_def df_empty_def)

lemma set_column_lookup:
  "map_of (columns (set_column f name s)) k =
     (if k = name then Some (map (map_of s) (index f)) else map_of (columns f) k)"
  by (simp add: set_column_def update_conv')

lemma agg_loop_Cons_empty:
  "calculate_portfolio data (snd ns) c = Inr [] \<Longrightarrow>
     agg_loop data c (ns # ts) cdf = agg_loop data c ts cdf"
  by simp

lemma agg_loop_Cons_nonempty:
  "calculate_portfolio data (snd ns) c = Inr df \<Longrightarrow> df \<noteq> [] \<Longrightarrow> \<not> df_empty cdf \<Longrightarrow>
     agg_loop data c (ns # ts) cdf = agg_loop data c ts (set_column cdf (fst ns) (value_column df))"
  by (simp add: Let_def)

lemma agg_loop_Cons_first:
  "calculate_portfolio data (snd ns) c = Inr df \<Longrightarrow> df \<noteq> [] \<Longrightarrow> df_empty cdf \<Longrightarrow>
     agg_loop data c (ns # ts) cdf =
       agg_loop data c ts
         (set_column (set_column \<lparr>index = map fst df, columns = []\<rparr> ''Total Invested'' (invested_column df))
            (fst ns) (value_column df))"
  by (simp add: Let_def)

lemma agg_loop_index:
  "agg_loop data c ts cdf = Inr cdf' \<Longrightarrow> \<not> df_empty cdf \<Longrightarrow>
     index cdf' = index cdf \<and> \<not> df_empty cdf'"
proof (induction ts arbitrary: cdf)
  case Nil
  then show ?case by simp
next
  case (Cons ns ts)
  from Cons.prems(1) obtain df where cp: "calculate_portfolio data (snd ns) c = Inr df"
    by (auto split: sum.splits)
  show ?case
  proof (cases "df = []")
    case True
    with cp Cons.prems(1) have "agg_loop data c ts cdf = Inr cdf'" by simp
    from Cons.IH [OF this Cons.prems(2)] show ?thesis .
  next
    case False
    let ?f = "set_column cdf (fst ns) (value_column df)"
    from Cons.prems(1) have l: "agg_loop data c ts ?f = Inr cdf'"
      by (simp only: agg_loop_Cons_nonempty [OF cp False Cons.prems(2)])
    have ne: "\<not> df_empty ?f"
      using Cons.prems(2) by (intro set_column_not_empty) (simp add: df_empty_def)
    from Cons.IH [OF l ne] show ?thesis by (simp add: set_column_index)
  qed
qed

lemma agg_loop_untouched:
  "agg_loop data c ts cdf = Inr cdf' \<Longrightarrow> \<not> df_empty cdf \<Longrightarrow> name \<notin> fst ` set ts \<Longrightarrow>
     map_of (columns cdf') name = map_of (columns cdf) name"
proof (induction ts arbitrary: cdf)
  case Nil
  then show ?case by simp
next
  case (Cons ns ts)
  from Cons.prems(3) have neq: "name \<noteq> fst ns" and rest: "name \<notin> fst ` set ts" by auto
  from Cons.prems(1) obtain df where cp: "calculate_portfolio data (snd ns) c = Inr df"
    by (auto split: sum.splits)
  show ?case
  proof (cases "df = []")
    case True
    with cp Cons.prems(1) have "agg_loop data c ts cdf = Inr cdf'" by simp
    from Cons.IH [OF this Cons.prems(2) rest] show ?thesis .
  next
    case False
    let ?f = "set_column cdf (fst ns) (value_column df)"
    from Cons.prems(1) have l: "agg_loop data c ts ?f = Inr cdf'"
      by (simp only: agg_loop_Cons_nonempty [OF cp False Cons.prems(2)])
    have ne: "\<not> df_empty ?f"
      using Cons.prems(2) by (intro set_column_not_empty) (simp add: df_empty_def)
    from Cons.IH [OF l ne rest] neq show ?thesis by (simp add: set_column_lookup)
  qed
qed

lemma agg_loop_column:
  "agg_loop data c ts cdf = Inr cdf' \<Longrightarrow> \<not> df_empty cdf \<Longrightarrow> distinct (map fst ts) \<Longrightarrow>
     ns \<in> set ts \<Longrightarrow> calculate_portfolio data (snd ns) c = Inr df \<Longrightarrow> df \<noteq> [] \<Longrightarrow>
     map_of (columns cdf') (fst ns) = Some (map (map_of (value_column df)) (index cdf))"
proof (induction ts arbitrary: cdf)
  case Nil
  then show ?case by simp
next
  case (Cons x ts)
  from Cons.prems(3) have fresh: "fst x \<notin> fst ` set ts" and d: "distinct (map fst ts)" by auto
  from Cons.prems(1) obtain dfx where cp: "calculate_portfolio data (snd x) c = Inr dfx"
    by (auto split: sum.splits)
  show ?case
  proof (cases "dfx = []")
    case True
    with cp Cons.prems(1) have l: "agg_loop data c ts cdf = Inr cdf'" by simp
    from True cp Cons.prems(5,6) have "ns \<noteq> x" by auto
    with Cons.prems(4) have "ns \<in> set ts" by simp
    from Cons.IH [OF l Cons.prems(2) d this Cons.prems(5,6)] show ?thesis .
  next
    case False
    let ?f = "set_column cdf (fst x) (value_column dfx)"
    from Cons.prems(1) have l: "agg_loop data c ts ?f = Inr cdf'"
      by (simp only: agg_loop_Cons_nonempty [OF cp False Cons.prems(2)])
    have ne: "\<not> df_empty ?f"
      using Cons.prems(2) by (intro set_column_not_empty) (simp add: df_empty_def)
    show ?thesis
    proof (cases "ns = x")
      case True
      with cp Cons.prems(5) have "dfx = df" by simp
      with agg_loop_untouched [OF l ne fresh] True show ?thesis
        by (simp add: set_column_lookup)
    next
      case False
      with Cons.prems(4) have "ns \<in> set ts" by simp
      from Cons.IH [OF l ne d this Cons.prems(5,6)] show ?thesis
        by (simp add: set_column_index)
    qed
  qed
qed

lemma agg_loop_first:
  "agg_loop data c ts cdf = Inr cdf' \<Longrightarrow> df_empty cdf \<Longrightarrow> \<not> df_empty cdf' \<Longrightarrow>
     \<exists>pre ns post df.
        ts = pre @ ns # post \<and>
        (\<forall>x \<in> set pre. calculate_portfolio data (snd x) c = Inr []) \<and>
        calculate_portfolio data (snd ns) c = Inr df \<and> df \<noteq> [] \<and>
        agg_loop data c post
          (set_column (set_column \<lparr>index = map fst df, columns = []\<rparr> ''Total Invested'' (invested_column df))
             (fst ns) (value_column df)) = Inr cdf'"
proof (induction ts)
  case Nil
  then show ?case by simp
next
  case (Cons x ts)
  from Cons.prems(1) obtain dfx where cp: "calculate_portfolio data (snd x) c = Inr dfx"
    by (auto split: sum.splits)
  show ?case
  proof (cases "dfx = []")
    case True
    with cp Cons.prems(1) have l: "agg_loop data c ts cdf = Inr cdf'" by simp
    from Cons.IH [OF l Cons.prems(2,3)] obtain pre ns post df where
      "ts = pre @ ns # post" "\<forall>x \<in> set pre. calculate_portfolio data (snd x) c = Inr []"
      "calculate_portfolio data (snd ns) c = Inr df" "df \<noteq> []"
      "agg_loop data c post
          (set_column (set_column \<lparr>index = map fst df, columns = []\<rparr> ''Total Invested'' (invested_column df))
             (fst ns) (value_column df)) = Inr cdf'"
      by blast
    with True cp have "x # ts = (x # pre) @ ns # post \<and>
        (\<forall>y \<in> set (x # pre). calculate_portfolio data (snd y) c = Inr []) \<and>
        calculate_portfolio data (snd ns) c = Inr df \<and> df \<noteq> [] \<and>
        agg_loop data c post
          (set_column (set_column \<lparr>index = map fst df, columns = []\<rparr> ''Total Invested'' (invested_column df))
             (fst ns) (value_column df)) = Inr cdf'"
      by simp
    then show ?thesis by blast
  next
    case False
    from Cons.prems(1) have "agg_loop data c ts
          (set_column (set_column \<lparr>index = map fst dfx, columns = []\<rparr> ''Total Invested'' (invested_column dfx))
             (fst x) (value_column dfx)) = Inr cdf'"
      by (simp only: agg_loop_Cons_first [OF cp False Cons.prems(2)])
    with cp False have "x # ts = [] @ x # ts \<and>
        (\<forall>y \<in> set []. calculate_portfolio data (snd y) c = Inr []) \<and>
        calculate_portfolio data (snd x) c = Inr dfx \<and> dfx \<noteq> [] \<and>
        agg_loop data c ts
          (set_column (set_column \<lparr>index = map fst dfx, columns = []\<rparr> ''Total Invested'' (invested_column dfx))
             (fst x) (value_column dfx)) = Inr cdf'"
      by simp
    then show ?thesis by blast
  qed
qed

subsection \<open>Forward fill\<close>

lemma ffill_from_length: "length (ffill_from prev vs) = length vs"
  by (induction prev vs rule: ffill_from.induct) simp_all

lemma ffill_from_leading:
  "i < length vs \<Longrightarrow> \<forall>j\<le>i. vs ! j = None \<Longrightarrow> ffill_from prev vs ! i = prev"
proof (induction prev vs arbitrary: i rule: ffill_from.induct)
  case (1 prev)
  then show ?case by simp
next
  case (2 prev vs)
  show ?case
  proof (cases i)
    case 0
    then show ?thesis by simp
  next
    case (Suc k)
    with "2.prems" have "k < length vs" and "\<forall>j\<le>k. vs ! j = None" by auto
    from "2.IH" [OF this] Suc show ?thesis by simp
  qed
next
  case (3 prev v vs)
  from "3.prems"(2) have "(Some v # vs) ! 0 = None" by blast
  then show ?case by simp
qed

lemma ffill_from_source:
  "i < length vs \<Longrightarrow> ffill_from prev vs ! i = Some v \<Longrightarrow>
     prev = Some v \<or> (\<exists>j\<le>i. vs ! j = Some v)"
proof (induction prev vs arbitrary: i rule: ffill_from.induct)
  case (1 prev)
  then show ?case by simp
next
  case (2 prev vs)
  show ?case
  proof (cases i)
    case 0
    with "2.prems" show ?thesis by simp
  next
    case (Suc k)
    with "2.prems" have "k < length vs" and "ffill_from prev vs ! k = Some v" by auto
    from "2.IH" [OF this] Suc show ?thesis by auto
  qed
next
  case (3 prev w vs)
  show ?case
  proof (cases i)
    case 0
    with "3.prems" show ?thesis by auto
  next
    case (Suc k)
    with "3.prems" have "k < length vs" and "ffill_from (Some w) vs ! k = Some v" by auto
    from "3.IH" [OF this] have "w = v \<or> (\<exists>j\<le>k. vs ! j = Some v)" by simp
    then show ?thesis
    proof
      assume "w = v"
      then have "(Some w # vs) ! 0 = Some v" by simp
      then show ?thesis by blast
    next
      assume "\<exists>j\<le>k. vs ! j = Some v"
      then obtain j where "j \<le> k" "vs ! j = Some v" by blast
      then have "Suc j \<le> i" "(Some w # vs) ! Suc j = Some v" using Suc by simp_all
      then show ?thesis by blast
    qed
  qed
qed

lemma ffill_index: "index (ffill f) = index f"
  by (simp add: ffill_def)

lemma map_of_map_snd:
  "map_of (map (\<lambda>nc. (fst nc, g (snd nc))) al) k = map_option g (map_of al k)"
  by (induction al) auto

lemma ffill_lookup:
  "map_of (columns (ffill f)) k = map_option (ffill_from None) (map_of (columns f) k)"
  by (simp add: ffill_def map_of_map_snd)

subsection \<open>The aggregated frame\<close>

lemma calculate_portfolio_dates:
  "calculate_portfolio data symbol c = Inr df \<Longrightarrow> df \<noteq> [] \<Longrightarrow>
     \<exists>col. data symbol = Some col \<and> map fst df = map fst (dropna col)"
  by (auto simp: calculate_portfolio_def loop_init_frame(1) split: option.splits sum.splits)

lemma aggregate_frame:
  assumes agg: "aggregate data ts c = Inr (Some fr)" and d: "distinct (map fst ts)"
  shows "\<exists>pre ns post df.
           ts = pre @ ns # post \<and>
           (\<forall>x \<in> set pre. calculate_portfolio data (snd x) c = Inr []) \<and>
           calculate_portfolio data (snd ns) c = Inr df \<and> df \<noteq> [] \<and>
           index fr = map fst df \<and>
           (\<forall>x dfx. x \<in> set ts \<and> calculate_portfolio data (snd x) c = Inr dfx \<and> dfx \<noteq> [] \<longrightarrow>
              map_of (columns fr) (fst x)
                = Some (ffill_from None (map (map_of (value_column dfx)) (index fr))))"
proof -
  from agg obtain cdf where l: "agg_loop data c ts empty_frame = Inr cdf"
    and ne: "\<not> df_empty cdf" and fr: "fr = ffill cdf"
    by (auto simp: aggregate_def split: sum.splits if_splits)
  have e: "df_empty empty_frame" by (simp add: df_empty_def empty_frame_def)
  from agg_loop_first [OF l e ne] obtain pre n0 post df0 where
    ts: "ts = pre @ n0 # post"
    and pre: "\<forall>x \<in> set pre. calculate_portfolio data (snd x) c = Inr []"
    and cp0: "calculate_portfolio data (snd n0) c = Inr df0" and ne0: "df0 \<noteq> []"
    and lp: "agg_loop data c post
          (set_column (set_column \<lparr>index = map fst df0, columns = []\<rparr> ''Total Invested'' (invested_column df0))
             (fst n0) (value_column df0)) = Inr cdf"
    by blast
  define F0 where "F0 = set_column (set_column \<lparr>index = map fst df0, columns = []\<rparr>
      ''Total Invested'' (invested_column df0)) (fst n0) (value_column df0)"
  have idxF0: "index F0 = map fst df0"
    by (simp add: F0_def set_column_index)
  have neF0: "\<not> df_empty F0"
    unfolding F0_def using ne0 by (intro set_column_not_empty) (simp add: set_column_index)
  have lp': "agg_loop data c post F0 = Inr cdf" using lp by (simp add: F0_def)
  from agg_loop_index [OF lp' neF0] have idx: "index cdf = map fst df0"
    by (simp add: idxF0)
  have dpost: "distinct (map fst post)" and fresh: "fst n0 \<notin> fst ` set post"
    using d ts by auto
  have colF0: "map_of (columns F0) (fst n0) = Some (map (map_of (value_column df0)) (map fst df0))"
    by (simp add: F0_def set_column_lookup set_column_index)
  have cols: "map_of (columns cdf) (fst x) = Some (map (map_of (value_column dfx)) (index cdf))"
    if x: "x \<in> set ts" and cpx: "calculate_portfolio data (snd x) c = Inr dfx" and nex: "dfx \<noteq> []"
    for x dfx
  proof -
    from pre cpx nex have "x \<notin> set pre" by auto
    with x ts have "x = n0 \<or> x \<in> set post" by auto
    then show ?thesis
    proof
      assume "x = n0"
      with cpx cp0 have "dfx = df0" by simp
      with agg_loop_untouched [OF lp' neF0 fresh] colF0 idx \<open>x = n0\<close> show ?thesis by simp
    next
      assume "x \<in> set post"
      from agg_loop_column [OF lp' neF0 dpost this cpx nex] show ?thesis
        by (simp add: idxF0 idx)
    qed
  qed
  have "\<forall>x dfx. x \<in> set ts \<and> calculate_portfolio data (snd x) c = Inr dfx \<and> dfx \<noteq> [] \<longrightarrow>
      map_of (columns fr) (fst x) = Some (ffill_from None (map (map_of (value_column dfx)) (index fr)))"
    using cols by (simp add: fr ffill_lookup ffill_index)
  moreover have "index fr = map fst df0" by (simp add: fr ffill_index idx)
  ultimately show ?thesis using ts pre cp0 ne0 by blast
qed

text \<open>When no simulation raises and some result is not empty, the aggregation returns a
  frame, whose index is the list of dates of the first result that is not empty.\<close>

lemma agg_loop_returns:
  "\<forall>x \<in> set ts. \<exists>dfx. calculate_portfolio data (snd x) c = Inr dfx \<Longrightarrow>
     \<exists>cdf'. agg_loop data c ts cdf = Inr cdf'"
proof (induction ts arbitrary: cdf)
  case Nil
  show ?case by simp
next
  case (Cons x ts)
  from Cons.prems obtain dfx where cp: "calculate_portfolio data (snd x) c = Inr dfx"
    and rest: "\<forall>x \<in> set ts. \<exists>dfx. calculate_portfolio data (snd x) c = Inr dfx"
    by auto
  show ?case
    using cp Cons.IH [OF rest] by (simp add: Let_def)
qed

lemma agg_loop_skip_empty:
  "\<forall>x \<in> set pre. calculate_portfolio data (snd x) c = Inr [] \<Longrightarrow>
     agg_loop data c (pre @ ts) cdf = agg_loop data c ts cdf"
  by (induction pre) simp_all

lemma aggregate_returns:
  assumes ts: "ts = pre @ ns # post"
    and pre: "\<forall>x \<in> set pre. calculate_portfolio data (snd x) c = Inr []"
    and cp: "calculate_portfolio data (snd ns) c = Inr df" and ne: "df \<noteq> []"
    and post: "\<forall>x \<in> set post. \<exists>dfx. calculate_portfolio data (snd x) c = Inr dfx"
  shows "\<exists>fr. aggregate data ts c = Inr (Some fr) \<and> index fr = map fst df"
proof -
  define F0 where "F0 = set_column (set_column \<lparr>index = map fst df, columns = []\<rparr>
      ''Total Invested'' (invested_column df)) (fst ns) (value_column df)"
  have e: "df_empty empty_frame" by (simp add: df_empty_def empty_frame_def)
  have "agg_loop data c ts empty_frame = agg_loop data c (ns # post) empty_frame"
    unfolding ts by (rule agg_loop_skip_empty [OF pre])
  also have "\<dots> = agg_loop data c post F0"
    unfolding F0_def by (rule agg_loop_Cons_first [OF cp ne e])
  finally have l: "agg_loop data c ts empty_frame = agg_loop data c post F0" .
  from agg_loop_returns [OF post] obtain cdf where lp: "agg_loop data c post F0 = Inr cdf"
    by blast
  have idxF0: "index F0 = map fst df"
    by (simp add: F0_def set_column_index)
  have neF0: "\<not> df_empty F0"
    unfolding F0_def using ne by (intro set_column_not_empty) (simp add: set_column_index)
  from agg_loop_index [OF lp neF0] have "index cdf = map fst df" and "\<not> df_empty cdf"
    by (simp_all add: idxF0)
  with l lp have "aggregate data ts c = Inr (Some (ffill cdf)) \<and> index (ffill cdf) = map fst df"
    by (simp add: aggregate_def ffill_index)
  then show ?thesis by blast
qed

text \<open>
  C2, as the code has it. Let the names of the tickers be different (they are the keys of
  a dict), and let the tickers be some whose result is empty, then a ticker whose result
  \<open>df\<close> is not empty, then tickers whose simulation does not raise. The aggregation
  returns a frame; its index is the list of dates of \<open>df\<close>, and nothing else; and
  every ticker with a result that is not empty has a column, which is its
  \<^verbatim>\<open>Portfolio Value\<close> looked up at each date of this index and then forward filled.
\<close>

theorem axis_is_first_result:
  assumes "distinct (map fst selected_tickers)"
    and "selected_tickers = pre @ ns # post"
    and "\<forall>x \<in> set pre. calculate_portfolio data (snd x) c = Inr []"
    and "calculate_portfolio data (snd ns) c = Inr df" and "df \<noteq> []"
    and "\<forall>x \<in> set post. \<exists>dfx. calculate_portfolio data (snd x) c = Inr dfx"
  shows "\<exists>fr. aggregate data selected_tickers c = Inr (Some fr) \<and>
           index fr = map fst df \<and>
           (\<forall>x dfx. x \<in> set selected_tickers \<and>
                calculate_portfolio data (snd x) c = Inr dfx \<and> dfx \<noteq> [] \<longrightarrow>
              map_of (columns fr) (fst x)
                = Some (ffill_from None (map (map_of (value_column dfx)) (index fr))))"
proof -
  from aggregate_returns [OF assms(2-6)] obtain fr where
    a: "aggregate data selected_tickers c = Inr (Some fr)" and idx: "index fr = map fst df"
    by blast
  from aggregate_frame [OF a assms(1)]
  have "\<forall>x dfx. x \<in> set selected_tickers \<and>
                calculate_portfolio data (snd x) c = Inr dfx \<and> dfx \<noteq> [] \<longrightarrow>
              map_of (columns fr) (fst x)
                = Some (ffill_from None (map (map_of (value_column dfx)) (index fr)))"
    by (elim exE conjE)
  with a idx show ?thesis by blast
qed

text \<open>C2, an instance: ticker C has no column in the data, ticker A has no price in the
  first month, ticker B has prices in both months.\<close>

theorem axis_is_first_result_witness:
  "\<exists>fr. aggregate
       (Map.empty(''A'' \<mapsto> [((0, 1), None), ((1, 1), Some 10)],
                  ''B'' \<mapsto> [((0, 1), Some 5), ((1, 1), Some 5)]))
       [(''C'', ''C''), (''A'', ''A''), (''B'', ''B'')] 100 = Inr (Some fr) \<and>
     index fr = [(1, 1)] \<and>
     map_of (columns fr) ''B'' = Some [Some 200]"
proof -
  let ?D = "Map.empty(''A'' \<mapsto> [((0::nat, 1::nat), None), ((1, 1), Some (10::real))],
                   ''B'' \<mapsto> [((0, 1), Some 5), ((1, 1), Some 5)])"
  let ?T = "[(''C'', ''C''), (''A'', ''A''), (''B'', ''B'')]"
  have cpA: "calculate_portfolio ?D (snd (''A'', ''A'')) 100 = Inr [((1, 1), 100, 100)]"
    by (simp add: calculate_portfolio_def body_def init_state_def to_frame_def)
  have cpB: "calculate_portfolio ?D ''B'' 100 = Inr [((0, 1), 100, 100), ((1, 1), 200, 200)]"
    by (simp add: calculate_portfolio_def body_def init_state_def to_frame_def)
  have cpC: "calculate_portfolio ?D ''C'' 100 = Inr []"
    by (simp add: calculate_portfolio_def)
  have h1: "distinct (map fst ?T)" by simp
  have h2: "?T = [(''C'', ''C'')] @ (''A'', ''A'') # [(''B'', ''B'')]" by simp
  have h3: "\<forall>x \<in> set [(''C'', ''C'')]. calculate_portfolio ?D (snd x) 100 = Inr []"
    using cpC by simp
  have h5: "[((1::nat, 1::nat), 100::real, 100::real)] \<noteq> []" by simp
  have h6: "\<forall>x \<in> set [(''B'', ''B'')]. \<exists>dfx. calculate_portfolio ?D (snd x) 100 = Inr dfx"
    using cpB by simp
  from axis_is_first_result [OF h1 h2 h3 cpA h5 h6] obtain fr where
    a: "aggregate ?D ?T 100 = Inr (Some fr)" and idx: "index fr = map fst [((1::nat, 1::nat), 100::real, 100::real)]"
    and cols: "\<forall>x dfx. x \<in> set ?T \<and> calculate_portfolio ?D (snd x) 100 = Inr dfx \<and> dfx \<noteq> [] \<longrightarrow>
              map_of (columns fr) (fst x)
                = Some (ffill_from None (map (map_of (value_column dfx)) (index fr)))"
    by (elim exE conjE)
  have "(''B'', ''B'') \<in> set ?T \<and> calculate_portfolio ?D (snd (''B'', ''B'')) 100
      = Inr [((0, 1), 100, 100), ((1, 1), 200, 200)] \<and> [((0::nat, 1::nat), 100::real, 100::real), ((1, 1), 200, 200)] \<noteq> []"
    using cpB by simp
  with cols have "map_of (columns fr) (fst (''B'', ''B''))
      = Some (ffill_from None (map (map_of (value_column [((0, 1), 100, 100), ((1, 1), 200, 200)])) (index fr)))"
    by blast
  then have "map_of (columns fr) ''B'' = Some [Some 200]"
    by (simp add: idx value_column_def)
  with a idx show ?thesis by simp
qed

text \<open>C2 as stated fails: ticker A comes first and starts in the second month, so the
  index of the frame is the second month alone, though the result of ticker B, which is
  not empty, has a row for the first month as well.\<close>

theorem axis_not_union_counterexample:
  "aggregate
     (Map.empty(''A'' \<mapsto> [((0, 1), None), ((1, 1), Some 10)],
                ''B'' \<mapsto> [((0, 1), Some 5), ((1, 1), Some 5)]))
     [(''A'', ''A''), (''B'', ''B'')] 100
     = Inr (Some \<lparr>index = [(1, 1)],
         columns = [(''Total Invested'', [Some 100]), (''A'', [Some 100]), (''B'', [Some 200])]\<rparr>)
   \<and> calculate_portfolio
     (Map.empty(''A'' \<mapsto> [((0, 1), None), ((1, 1), Some 10)],
                ''B'' \<mapsto> [((0, 1), Some 5), ((1, 1), Some 5)])) ''B'' 100
     = Inr [((0, 1), 100, 100), ((1, 1), 200, 200)]"
  by (simp add: aggregate_def calculate_portfolio_def body_def init_state_def to_frame_def
      empty_frame_def df_empty_def set_column_def invested_column_def value_column_def ffill_def)

lemma aggregate_axis_sorted:
  assumes "aggregate data ts c = Inr (Some fr)" and "distinct (map fst ts)"
    and "\<forall>s col. data s = Some col \<longrightarrow> sorted (map fst col)"
  shows "sorted (index fr)"
  using aggregate_frame [OF assms(1,2)]
proof (elim exE conjE)
  fix pre ns post df
  assume cp: "calculate_portfolio data (snd ns) c = Inr df" and ne: "df \<noteq> []"
    and idx: "index fr = map fst df"
  from calculate_portfolio_dates [OF cp ne] obtain col where
    col: "data (snd ns) = Some col" and dts: "map fst df = map fst (dropna col)" by blast
  from assms(3) col have "sorted (map fst col)" by blast
  then have "sorted (map fst (filter (\<lambda>r. snd r \<noteq> None) col))" by (rule sorted_filter)
  then show ?thesis by (simp add: idx dts dropna_dates)
qed

text \<open>
  C8. Let the columns of the price data be in chronological order and the names of the
  tickers be different. For a ticker of the aggregated frame and a position \<open>i\<close> of
  its index: the ticker has a column as long as the index; when the date at \<open>i\<close> is
  strictly before every date of the ticker's own result, the cell at \<open>i\<close> is missing;
  and a value in the cell at \<open>i\<close> is the ticker's value at a date of the index at
  or before position \<open>i\<close>.
\<close>

theorem no_value_before_first_observation:
  assumes "aggregate data selected_tickers c = Inr (Some fr)"
    and "distinct (map fst selected_tickers)"
    and "\<forall>s col. data s = Some col \<longrightarrow> sorted (map fst col)"
    and "ns \<in> set selected_tickers"
    and "calculate_portfolio data (snd ns) c = Inr df" and "df \<noteq> []"
    and "i < length (index fr)"
  shows "\<exists>col. map_of (columns fr) (fst ns) = Some col \<and> length col = length (index fr) \<and>
           ((\<forall>d \<in> fst ` set df. index fr ! i < d) \<longrightarrow> col ! i = None) \<and>
           (\<forall>v. col ! i = Some v \<longrightarrow> (\<exists>j\<le>i. (index fr ! j, v) \<in> set (value_column df)))"
proof -
  define cells where "cells = map (map_of (value_column df)) (index fr)"
  define col where "col = ffill_from None cells"
  from aggregate_frame [OF assms(1,2)] assms(4,5,6)
  have lk: "map_of (columns fr) (fst ns) = Some col"
    unfolding col_def cells_def by blast
  have len: "length col = length (index fr)"
    by (simp add: col_def cells_def ffill_from_length)
  have i: "i < length cells" using assms(7) by (simp add: cells_def)
  have srt: "sorted (index fr)" by (rule aggregate_axis_sorted [OF assms(1,2,3)])
  have lead: "col ! i = None" if before: "\<forall>d \<in> fst ` set df. index fr ! i < d"
  proof -
    have "cells ! j = None" if "j \<le> i" for j
    proof -
      from that assms(7) have j: "j < length (index fr)" by simp
      from srt that assms(7) have "index fr ! j \<le> index fr ! i"
        by (simp add: sorted_nth_mono)
      with before have "\<forall>d \<in> fst ` set df. index fr ! j < d" by (blast intro: le_less_trans)
      then have "index fr ! j \<notin> fst ` set df" by blast
      then have "map_of (value_column df) (index fr ! j) = None"
        by (simp add: map_of_eq_None_iff value_column_def image_image)
      with j show ?thesis by (simp add: cells_def)
    qed
    then show ?thesis using ffill_from_leading [OF i, of None] by (simp add: col_def)
  qed
  have src: "\<exists>j\<le>i. (index fr ! j, v) \<in> set (value_column df)" if "col ! i = Some v" for v
  proof -
    from ffill_from_source [OF i, of None v] that obtain j where
      j: "j \<le> i" and cj: "cells ! j = Some v" by (auto simp: col_def)
    from j assms(7) have "j < length (index fr)" by simp
    with cj have "map_of (value_column df) (index fr ! j) = Some v" by (simp add: cells_def)
    then have "(index fr ! j, v) \<in> set (value_column df)" by (rule map_of_SomeD)
    with j show ?thesis by blast
  qed
  from lk len lead src show ?thesis by blast
qed

text \<open>C8, an instance: ticker B comes first and spans both months, ticker A starts in
  the second month, and its cell for the first month is missing.\<close>

theorem no_value_before_first_observation_witness:
  "aggregate
     (Map.empty(''A'' \<mapsto> [((0, 1), None), ((1, 1), Some 10)],
                ''B'' \<mapsto> [((0, 1), Some 5), ((1, 1), Some 5)]))
     [(''B'', ''B''), (''A'', ''A'')] 100
     = Inr (Some \<lparr>index = [(0, 1), (1, 1)],
         columns = [(''Total Invested'', [Some 100, Some 200]), (''B'', [Some 100, Some 200]),
                    (''A'', [None, Some 100])]\<rparr>)
   \<and> (\<exists>col. map_of [(''Total Invested'', [Some 100, Some 200]), (''B'', [Some 100, Some 200]),
                    (''A'', [None, Some 100])] ''A'' = Some col \<and> col ! 0 = None)"
proof -
  let ?D = "Map.empty(''A'' \<mapsto> [((0::nat, 1::nat), None), ((1, 1), Some (10::real))],
                   ''B'' \<mapsto> [((0, 1), Some 5), ((1, 1), Some 5)])"
  let ?T = "[(''B'', ''B''), (''A'', ''A'')]"
  let ?fr = "\<lparr>index = [(0, 1), (1, 1)],
         columns = [(''Total Invested'', [Some 100, Some 200]), (''B'', [Some 100, Some 200]),
                    (''A'', [None, Some 100])]\<rparr>"
  have a: "aggregate ?D ?T 100 = Inr (Some ?fr)"
    by (simp add: aggregate_def calculate_portfolio_def body_def init_state_def to_frame_def
      empty_frame_def df_empty_def set_column_def invested_column_def value_column_def ffill_def)
  have d: "distinct (map fst ?T)" by simp
  have s: "\<forall>s col. ?D s = Some col \<longrightarrow> sorted (map fst col)"
    by (auto split: if_splits)
  have m: "(''A'', ''A'') \<in> set ?T" by simp
  have cp: "calculate_portfolio ?D (snd (''A'', ''A'')) 100 = Inr [((1, 1), 100, 100)]"
    by (simp add: calculate_portfolio_def body_def init_state_def to_frame_def)
  have ne: "[((1::nat, 1::nat), 100::real, 100::real)] \<noteq> []" by simp
  have i: "0 < length (index ?fr)" by simp
  from no_value_before_first_observation [OF a d s m cp ne i] a show ?thesis
    by simp
qed

section \<open>Properties of the metrics\<close>

subsection \<open>What the loop over the tickers keeps true of the frame\<close>

lemma set_update_cases:
  "x \<in> set (AList.update k v al) \<Longrightarrow> x = (k, v) \<or> x \<in> set al"
  by (induction al) (auto split: if_splits)

lemma agg_loop_inv:
  assumes "agg_loop data c ts cdf = Inr cdf'"
    and "\<not> df_empty cdf \<Longrightarrow> Inv cdf"
    and fresh: "\<And>x df. x \<in> set ts \<Longrightarrow> calculate_portfolio data (snd x) c = Inr df \<Longrightarrow> df \<noteq> [] \<Longrightarrow>
        Inv (set_column \<lparr>index = map fst df, columns = []\<rparr> ''Total Invested'' (invested_column df))"
    and step: "\<And>x df f. x \<in> set ts \<Longrightarrow> calculate_portfolio data (snd x) c = Inr df \<Longrightarrow> df \<noteq> [] \<Longrightarrow>
        Inv f \<Longrightarrow> Inv (set_column f (fst x) (value_column df))"
    and "\<not> df_empty cdf'"
  shows "Inv cdf'"
  using assms(1,2,5) fresh step
proof (induction ts arbitrary: cdf)
  case Nil
  then show ?case by simp
next
  case (Cons x ts)
  from Cons.prems(1) obtain df where cp: "calculate_portfolio data (snd x) c = Inr df"
    by (auto split: sum.splits)
  have fresh': "Inv (set_column \<lparr>index = map fst dfy, columns = []\<rparr> ''Total Invested'' (invested_column dfy))"
    if "y \<in> set ts" "calculate_portfolio data (snd y) c = Inr dfy" "dfy \<noteq> []" for y dfy
    using Cons.prems(4) [of y dfy] that by simp
  have step': "Inv (set_column f (fst y) (value_column dfy))"
    if "y \<in> set ts" "calculate_portfolio data (snd y) c = Inr dfy" "dfy \<noteq> []" "Inv f" for y dfy f
    using Cons.prems(5) [of y dfy f] that by simp
  show ?case
  proof (cases "df = []")
    case True
    with cp Cons.prems(1) have l: "agg_loop data c ts cdf = Inr cdf'" by simp
    show ?thesis
      by (rule Cons.IH [OF l Cons.prems(2) Cons.prems(3) fresh' step'])
  next
    case False
    define f1 where "f1 = (if df_empty cdf
        then set_column \<lparr>index = map fst df, columns = []\<rparr> ''Total Invested'' (invested_column df)
        else cdf)"
    define f2 where "f2 = set_column f1 (fst x) (value_column df)"
    from Cons.prems(1) cp False have l: "agg_loop data c ts f2 = Inr cdf'"
      by (simp add: Let_def f1_def f2_def)
    have "Inv f1"
    proof (cases "df_empty cdf")
      case True
      then show ?thesis
        using Cons.prems(4) [of x df] cp False by (simp add: f1_def)
    next
      case False
      then show ?thesis using Cons.prems(2) by (simp add: f1_def)
    qed
    then have "Inv f2"
      unfolding f2_def using Cons.prems(5) [of x df f1] cp False by simp
    then have "\<not> df_empty f2 \<Longrightarrow> Inv f2" by simp
    show ?thesis
      by (rule Cons.IH [OF l \<open>\<not> df_empty f2 \<Longrightarrow> Inv f2\<close> Cons.prems(3) fresh' step'])
  qed
qed

lemma agg_loop_lengths:
  assumes "agg_loop data c ts empty_frame = Inr cdf" and "\<not> df_empty cdf"
  shows "\<forall>nc \<in> set (columns cdf). length (snd nc) = length (index cdf)"
proof (rule agg_loop_inv [OF assms(1) _ _ _ assms(2)])
  show "\<forall>nc\<in>set (columns empty_frame). length (snd nc) = length (index empty_frame)"
    by (simp add: empty_frame_def)
next
  fix x df
  show "\<forall>nc\<in>set (columns (set_column \<lparr>index = map fst df, columns = []\<rparr> ''Total Invested''
          (invested_column df))).
       length (snd nc) = length (index (set_column \<lparr>index = map fst df, columns = []\<rparr>
          ''Total Invested'' (invested_column df)))"
    by (simp add: set_column_def)
next
  fix x :: "string \<times> string" and df and f :: combined
  assume "\<forall>nc\<in>set (columns f). length (snd nc) = length (index f)"
  then show "\<forall>nc\<in>set (columns (set_column f (fst x) (value_column df))).
       length (snd nc) = length (index (set_column f (fst x) (value_column df)))"
    by (auto simp: set_column_def dest!: set_update_cases)
qed


subsection \<open>The invested totals, and the values of a zero contribution\<close>

lemma loop_invested_values:
  "loop c ps st = Inr st' \<Longrightarrow> v \<in> set (invested_values st') \<Longrightarrow>
     v \<in> set (invested_values st) \<or> (\<exists>k. v = total_invested st + c * real (Suc k))"
proof (induction ps arbitrary: st)
  case Nil
  then show ?case by simp
next
  case (Cons dp ps)
  then obtain st1 where b: "body c dp st = Inr st1" and l: "loop c ps st1 = Inr st'"
    by (auto split: sum.splits)
  from b have t1: "total_invested st1 = total_invested st + c"
    and i1: "invested_values st1 = invested_values st @ [total_invested st + c]"
    by (auto simp: body_Inr)
  from Cons.IH [OF l Cons.prems(2)]
  show ?case
  proof
    assume "v \<in> set (invested_values st1)"
    then have "v \<in> set (invested_values st) \<or> v = total_invested st + c * real (Suc 0)"
      by (auto simp: i1)
    then show ?thesis by blast
  next
    assume "\<exists>k. v = total_invested st1 + c * real (Suc k)"
    then obtain k where "v = total_invested st1 + c * real (Suc k)" by blast
    then have "v = total_invested st + c * real (Suc (Suc k))"
      by (simp add: t1 algebra_simps)
    then show ?thesis by blast
  qed
qed

lemma loop_zero_values:
  "loop 0 ps st = Inr st' \<Longrightarrow> shares_owned st = 0 \<Longrightarrow>
     \<forall>v \<in> set (portfolio_values st). v = 0 \<Longrightarrow> \<forall>v \<in> set (portfolio_values st'). v = 0"
proof (induction ps arbitrary: st)
  case Nil
  then show ?case by simp
next
  case (Cons dp ps)
  then obtain st1 where b: "body 0 dp st = Inr st1" and l: "loop 0 ps st1 = Inr st'"
    by (auto split: sum.splits)
  from b Cons.prems(2,3) have "shares_owned st1 = 0" and "\<forall>v \<in> set (portfolio_values st1). v = 0"
    by (auto simp: body_Inr)
  from Cons.IH [OF l this] show ?case .
qed

lemma calculate_portfolio_rows:
  assumes "calculate_portfolio data symbol c = Inr df" and "r \<in> set df"
  shows "\<exists>k. fst (snd r) = c * real (Suc k)"
    and "c = 0 \<Longrightarrow> snd (snd r) = 0"
proof -
  from assms obtain col st where l: "loop c (dropna col) init_state = Inr st"
    and df: "df = to_frame st"
    by (auto simp: calculate_portfolio_def split: option.splits sum.splits)
  obtain d a b where r: "r = (d, a, b)" by (cases r)
  from assms(2) df r have "(d, (a, b)) \<in> set (zip (dates st) (zip (invested_values st) (portfolio_values st)))"
    by (simp add: to_frame_def)
  then have "(a, b) \<in> set (zip (invested_values st) (portfolio_values st))"
    by (rule set_zip_rightD)
  then have "a \<in> set (invested_values st)" and "b \<in> set (portfolio_values st)"
    by (auto dest: set_zip_leftD set_zip_rightD)
  with r have iv: "fst (snd r) \<in> set (invested_values st)"
    and pv: "snd (snd r) \<in> set (portfolio_values st)"
    by simp_all
  from loop_invested_values [OF l iv] show "\<exists>k. fst (snd r) = c * real (Suc k)"
    by (simp add: init_state_def)
  show "snd (snd r) = 0" if "c = 0"
    using loop_zero_values [of "dropna col" init_state st] l pv that
    by (simp add: init_state_def)
qed

lemma aligned_zero_cells:
  assumes "\<forall>r \<in> set s. snd r = (0::real)"
  shows "\<forall>cell \<in> set (map (map_of s) idx). cell = None \<or> cell = Some 0"
proof
  fix cell assume "cell \<in> set (map (map_of s) idx)"
  then obtain d where cell: "cell = map_of s d" by auto
  show "cell = None \<or> cell = Some 0"
  proof (cases cell)
    case None
    then show ?thesis by simp
  next
    case (Some v)
    with cell have "map_of s d = Some v" by simp
    then have "(d, v) \<in> set s" by (rule map_of_SomeD)
    with assms have "snd (d, v) = 0" by blast
    with Some show ?thesis by simp
  qed
qed

lemma agg_loop_zero_cells:
  assumes "agg_loop data 0 ts empty_frame = Inr cdf" and "\<not> df_empty cdf"
  shows "\<forall>nc \<in> set (columns cdf). \<forall>cell \<in> set (snd nc). cell = None \<or> cell = Some 0"
proof (rule agg_loop_inv [OF assms(1) _ _ _ assms(2)])
  show "\<forall>nc\<in>set (columns empty_frame). \<forall>cell\<in>set (snd nc). cell = None \<or> cell = Some 0"
    by (simp add: empty_frame_def)
next
  fix x :: "string \<times> string" and df
  assume cp: "calculate_portfolio data (snd x) 0 = Inr df"
  have "\<forall>r \<in> set (invested_column df). snd r = 0"
    using calculate_portfolio_rows(1) [OF cp] by (auto simp: invested_column_def)
  from aligned_zero_cells [OF this, of "map fst df"]
  show "\<forall>nc\<in>set (columns (set_column \<lparr>index = map fst df, columns = []\<rparr> ''Total Invested''
          (invested_column df))). \<forall>cell\<in>set (snd nc). cell = None \<or> cell = Some 0"
    by (simp add: set_column_def)
next
  fix x :: "string \<times> string" and df and f :: combined
  assume cp: "calculate_portfolio data (snd x) 0 = Inr df"
    and inv: "\<forall>nc\<in>set (columns f). \<forall>cell\<in>set (snd nc). cell = None \<or> cell = Some 0"
  have "\<forall>r \<in> set (value_column df). snd r = 0"
    using calculate_portfolio_rows(2) [OF cp] by (auto simp: value_column_def)
  from aligned_zero_cells [OF this, of "index f"] inv
  show "\<forall>nc\<in>set (columns (set_column f (fst x) (value_column df))).
       \<forall>cell\<in>set (snd nc). cell = None \<or> cell = Some 0"
    unfolding set_column_def by (auto dest!: set_update_cases)
qed

lemma ffill_from_zero_cells:
  "\<forall>cell \<in> set vs. cell = None \<or> cell = Some (0::real) \<Longrightarrow> prev = None \<or> prev = Some 0 \<Longrightarrow>
     \<forall>cell \<in> set (ffill_from prev vs). cell = None \<or> cell = Some 0"
  by (induction prev vs rule: ffill_from.induct) auto

lemma ffill_from_defined:
  "i < length vs \<Longrightarrow> vs ! i = Some v \<Longrightarrow> ffill_from prev vs ! i = Some v"
proof (induction prev vs arbitrary: i rule: ffill_from.induct)
  case (1 prev)
  then show ?case by simp
next
  case (2 prev vs)
  then show ?case by (cases i) auto
next
  case (3 prev w vs)
  then show ?case by (cases i) auto
qed

lemma ffill_columns:
  "nc \<in> set (columns (ffill f)) \<Longrightarrow>
     \<exists>col. (fst nc, col) \<in> set (columns f) \<and> snd nc = ffill_from None col"
  by (auto simp: ffill_def)


subsection \<open>The last row of the frame\<close>

lemma aggregate_invested:
  assumes agg: "aggregate data ts c = Inr (Some fr)" and nti: "''Total Invested'' \<notin> fst ` set ts"
  shows "\<exists>ns df. ns \<in> set ts \<and> calculate_portfolio data (snd ns) c = Inr df \<and> df \<noteq> [] \<and>
           map_of (columns fr) ''Total Invested''
             = Some (ffill_from None (map (map_of (invested_column df)) (map fst df)))"
proof -
  from agg obtain cdf where l: "agg_loop data c ts empty_frame = Inr cdf"
    and ne: "\<not> df_empty cdf" and fr: "fr = ffill cdf"
    by (auto simp: aggregate_def split: sum.splits if_splits)
  have e: "df_empty empty_frame" by (simp add: df_empty_def empty_frame_def)
  from agg_loop_first [OF l e ne] obtain pre n0 post df0 where
    ts: "ts = pre @ n0 # post"
    and cp0: "calculate_portfolio data (snd n0) c = Inr df0" and ne0: "df0 \<noteq> []"
    and lp: "agg_loop data c post
          (set_column (set_column \<lparr>index = map fst df0, columns = []\<rparr> ''Total Invested'' (invested_column df0))
             (fst n0) (value_column df0)) = Inr cdf"
    by blast
  define F0 where "F0 = set_column (set_column \<lparr>index = map fst df0, columns = []\<rparr>
      ''Total Invested'' (invested_column df0)) (fst n0) (value_column df0)"
  have neF0: "\<not> df_empty F0"
    unfolding F0_def using ne0 by (intro set_column_not_empty) (simp add: set_column_index)
  have lp': "agg_loop data c post F0 = Inr cdf" using lp by (simp add: F0_def)
  from nti ts have n0: "fst n0 \<noteq> ''Total Invested''" and post: "''Total Invested'' \<notin> fst ` set post"
    by auto
  have "map_of (columns F0) ''Total Invested''
      = Some (map (map_of (invested_column df0)) (map fst df0))"
    using n0 by (simp add: F0_def set_column_lookup)
  with agg_loop_untouched [OF lp' neF0 post]
  have "map_of (columns cdf) ''Total Invested''
      = Some (map (map_of (invested_column df0)) (map fst df0))"
    by simp
  then have "map_of (columns fr) ''Total Invested''
      = Some (ffill_from None (map (map_of (invested_column df0)) (map fst df0)))"
    by (simp add: fr ffill_lookup)
  moreover have "n0 \<in> set ts" using ts by simp
  ultimately show ?thesis using cp0 ne0 by blast
qed

lemma invested_cells_last:
  assumes "df \<noteq> []"
  shows "\<exists>r \<in> set df.
           last (ffill_from None (map (map_of (invested_column df)) (map fst df)))
             = Some (fst (snd r))"
proof -
  define cells where "cells = map (map_of (invested_column df)) (map fst df)"
  define i where "i = length df - 1"
  from assms have i: "i < length df" by (simp add: i_def)
  then have ic: "i < length cells" by (simp add: cells_def)
  have "fst (df ! i) \<in> fst ` set (invested_column df)"
    using i by (force simp: invested_column_def)
  then obtain v where v: "map_of (invested_column df) (fst (df ! i)) = Some v"
    by (cases "map_of (invested_column df) (fst (df ! i))") (simp_all add: map_of_eq_None_iff)
  then have "(fst (df ! i), v) \<in> set (invested_column df)" by (rule map_of_SomeD)
  then obtain r where r: "r \<in> set df" and vr: "v = fst (snd r)"
    by (auto simp: invested_column_def)
  from v i have "cells ! i = Some v" by (simp add: cells_def)
  from ffill_from_defined [OF ic this]
  have "ffill_from None cells ! i = Some v" .
  moreover have len: "length (ffill_from None cells) = length df"
    by (simp add: ffill_from_length cells_def)
  then have "ffill_from None cells \<noteq> []" using assms by (cases df) auto
  then have "last (ffill_from None cells) = ffill_from None cells ! (length (ffill_from None cells) - 1)"
    by (rule last_conv_nth)
  then have "last (ffill_from None cells) = ffill_from None cells ! i"
    by (simp only: len i_def)
  ultimately have "last (ffill_from None cells) = Some (fst (snd r))"
    using vr by simp
  with r show ?thesis unfolding cells_def by (rule bexI [rotated])
qed

lemma metrics_report:
  "\<forall>name \<in> set names. \<exists>col. map_of (columns f) name = Some col \<and> col \<noteq> [] \<Longrightarrow>
     \<exists>ms. metrics f fi names = Inr ms \<and> map fst ms = names \<and>
       (\<forall>m \<in> set ms. \<exists>col. map_of (columns f) (fst m) = Some col \<and> col \<noteq> [] \<and>
           fst (snd m) = last col \<and> snd (snd m) = return_pct (last col) fi)"
proof (induction names)
  case Nil
  show ?case by simp
next
  case (Cons name names)
  from Cons.prems obtain col where col: "map_of (columns f) name = Some col" "col \<noteq> []"
    by auto
  from Cons.prems have "\<forall>name \<in> set names. \<exists>col. map_of (columns f) name = Some col \<and> col \<noteq> []"
    by simp
  from Cons.IH [OF this] obtain ms where ms: "metrics f fi names = Inr ms" "map fst ms = names"
    "\<forall>m \<in> set ms. \<exists>col. map_of (columns f) (fst m) = Some col \<and> col \<noteq> [] \<and>
           fst (snd m) = last col \<and> snd (snd m) = return_pct (last col) fi"
    by blast
  have "metrics f fi (name # names) = Inr ((name, last col, return_pct (last col) fi) # ms)"
    using col ms(1) by (simp add: final_cell_def)
  moreover have "map fst ((name, last col, return_pct (last col) fi) # ms) = name # names"
    using ms(2) by simp
  moreover have "\<forall>m \<in> set ((name, last col, return_pct (last col) fi) # ms).
      \<exists>col. map_of (columns f) (fst m) = Some col \<and> col \<noteq> [] \<and>
           fst (snd m) = last col \<and> snd (snd m) = return_pct (last col) fi"
    using col ms(3) by simp
  ultimately show ?case by - (rule exI, intro conjI; assumption)
qed

lemma return_pct_nonzero:
  "i \<noteq> 0 \<Longrightarrow> return_pct (Some v) (Some i) = Fin ((v / i - 1) * 100)"
  by (simp add: return_pct_def)

lemma return_pct_zero:
  "cell = None \<or> cell = Some 0 \<Longrightarrow> return_pct cell (Some 0) = NaN"
  by (auto simp: return_pct_def)

text \<open>
  C4, as the code has it. Take a frame that the aggregation returns (no ticker is named
  \<^verbatim>\<open>Total Invested\<close>; the names of the application all end in a symbol between
  parentheses). The metrics section reads the final invested amount from the last cell of
  the \<^verbatim>\<open>Total Invested\<close> column, which holds a number, and reports one entry for each
  selected ticker that has a column, in order: its final value, read from the last cell
  of its column, and \<^verbatim>\<open>return_pct\<close> of the two. For a final invested amount that is
  not zero and a final value \<open>v\<close> this is \<open>(v / final_invested - 1) * 100\<close>. For a
  final invested amount of zero the division is made all the same, and the return
  reported for every ticker is NaN.
\<close>

theorem summarize_return_pct:
  assumes agg: "aggregate data selected_tickers c = Inr (Some fr)"
    and nti: "''Total Invested'' \<notin> fst ` set selected_tickers"
  shows "\<exists>final_invested ms.
           summarize fr selected_tickers = Inr (Some final_invested, ms) \<and>
           (\<exists>inv. map_of (columns fr) ''Total Invested'' = Some inv \<and> inv \<noteq> [] \<and>
                  last inv = Some final_invested) \<and>
           map fst ms = filter (\<lambda>name. name \<in> fst ` set (columns fr)) (map fst selected_tickers) \<and>
           (\<forall>m \<in> set ms. \<exists>col.
              map_of (columns fr) (fst m) = Some col \<and> col \<noteq> [] \<and>
              fst (snd m) = last col \<and>
              snd (snd m) = return_pct (last col) (Some final_invested) \<and>
              (final_invested \<noteq> 0 \<longrightarrow>
                 (\<forall>v. last col = Some v \<longrightarrow> snd (snd m) = Fin ((v / final_invested - 1) * 100))) \<and>
              (final_invested = 0 \<longrightarrow> snd (snd m) = NaN))"
proof -
  from agg obtain cdf where l: "agg_loop data c selected_tickers empty_frame = Inr cdf"
    and ne: "\<not> df_empty cdf" and fr: "fr = ffill cdf"
    by (auto simp: aggregate_def split: sum.splits if_splits)
  have idx: "index cdf \<noteq> []" using ne by (simp add: df_empty_def)
  have lens: "\<forall>nc \<in> set (columns cdf). length (snd nc) = length (index cdf)"
    by (rule agg_loop_lengths [OF l ne])
  have cols_ne: "col \<noteq> []" if "map_of (columns fr) name = Some col" for name col
  proof -
    from that have "(name, col) \<in> set (columns (ffill cdf))"
      unfolding fr by (rule map_of_SomeD)
    from ffill_columns [OF this] obtain col0 where "(name, col0) \<in> set (columns cdf)"
      and "col = ffill_from None col0" by auto
    with lens idx have "length col = length (index cdf)"
      by (auto simp: ffill_from_length)
    with idx show ?thesis by auto
  qed
  from aggregate_invested [OF agg nti] obtain ns df where
    "ns \<in> set selected_tickers" and cp: "calculate_portfolio data (snd ns) c = Inr df" and dfne: "df \<noteq> []"
    and ti: "map_of (columns fr) ''Total Invested''
             = Some (ffill_from None (map (map_of (invested_column df)) (map fst df)))"
    by blast
  define inv where "inv = ffill_from None (map (map_of (invested_column df)) (map fst df))"
  from invested_cells_last [OF dfne] obtain r where r: "r \<in> set df"
    and li: "last inv = Some (fst (snd r))" by (auto simp: inv_def)
  define fi where "fi = fst (snd r)"
  from calculate_portfolio_rows(1) [OF cp r] obtain k where k: "fi = c * real (Suc k)"
    by (auto simp: fi_def)
  have ti': "map_of (columns fr) ''Total Invested'' = Some inv" using ti by (simp add: inv_def)
  have inv_ne: "inv \<noteq> []" by (rule cols_ne [OF ti'])
  have fc: "final_cell fr ''Total Invested'' = Inr (Some fi)"
    using ti' inv_ne li by (simp add: final_cell_def fi_def)
  define valid where
    "valid = filter (\<lambda>name. name \<in> fst ` set (columns fr)) (map fst selected_tickers)"
  have "\<forall>name \<in> set valid. \<exists>col. map_of (columns fr) name = Some col \<and> col \<noteq> []"
  proof
    fix name assume "name \<in> set valid"
    then have "name \<in> fst ` set (columns fr)" by (simp add: valid_def)
    then obtain col where c: "map_of (columns fr) name = Some col"
      by (cases "map_of (columns fr) name") (simp_all add: map_of_eq_None_iff)
    with cols_ne [OF c] show "\<exists>col. map_of (columns fr) name = Some col \<and> col \<noteq> []" by blast
  qed
  from metrics_report [OF this, of "Some fi"] obtain ms where
    ms: "metrics fr (Some fi) valid = Inr ms" and names: "map fst ms = valid"
    and rep: "\<forall>m \<in> set ms. \<exists>col. map_of (columns fr) (fst m) = Some col \<and> col \<noteq> [] \<and>
           fst (snd m) = last col \<and> snd (snd m) = return_pct (last col) (Some fi)"
    by blast
  have sm: "summarize fr selected_tickers = Inr (Some fi, ms)"
    using fc ms by (simp add: summarize_def valid_def)
  have zero: "\<forall>nc \<in> set (columns fr). \<forall>cell \<in> set (snd nc). cell = None \<or> cell = Some 0"
    if "fi = 0"
  proof -
    from that k have "c = 0" by simp
    with l have l0: "agg_loop data 0 selected_tickers empty_frame = Inr cdf" by simp
    from agg_loop_zero_cells [OF l0 ne]
    have z: "\<forall>nc \<in> set (columns cdf). \<forall>cell \<in> set (snd nc). cell = None \<or> cell = Some 0" .
    show ?thesis
    proof
      fix nc assume "nc \<in> set (columns fr)"
      from ffill_columns [OF this [unfolded fr]] obtain col0 where
        "(fst nc, col0) \<in> set (columns cdf)" and nc: "snd nc = ffill_from None col0" by blast
      with z have "\<forall>cell \<in> set col0. cell = None \<or> cell = Some 0" by force
      from ffill_from_zero_cells [OF this, of None]
      show "\<forall>cell \<in> set (snd nc). cell = None \<or> cell = Some 0" by (simp add: nc)
    qed
  qed
  have each: "\<exists>col. map_of (columns fr) (fst m) = Some col \<and> col \<noteq> [] \<and>
              fst (snd m) = last col \<and>
              snd (snd m) = return_pct (last col) (Some fi) \<and>
              (fi \<noteq> 0 \<longrightarrow> (\<forall>v. last col = Some v \<longrightarrow> snd (snd m) = Fin ((v / fi - 1) * 100))) \<and>
              (fi = 0 \<longrightarrow> snd (snd m) = NaN)"
    if m: "m \<in> set ms" for m
  proof -
    from rep m obtain col where c: "map_of (columns fr) (fst m) = Some col" and cne: "col \<noteq> []"
      and fv: "fst (snd m) = last col" and rp: "snd (snd m) = return_pct (last col) (Some fi)"
      by blast
    have nz: "\<forall>v. last col = Some v \<longrightarrow> snd (snd m) = Fin ((v / fi - 1) * 100)" if "fi \<noteq> 0"
      using rp that by (auto simp: return_pct_nonzero)
    have z: "snd (snd m) = NaN" if "fi = 0"
    proof -
      from c have "(fst m, col) \<in> set (columns fr)" by (rule map_of_SomeD)
      with zero [OF that] have "\<forall>cell \<in> set col. cell = None \<or> cell = Some 0" by force
      with cne have "last col = None \<or> last col = Some 0" by (meson last_in_set)
      from return_pct_zero [OF this] rp that show ?thesis by simp
    qed
    from c cne fv rp nz z show ?thesis by blast
  qed
  have "\<exists>inv. map_of (columns fr) ''Total Invested'' = Some inv \<and> inv \<noteq> [] \<and> last inv = Some fi"
    using ti' inv_ne li by (auto simp: fi_def)
  with sm names each show ?thesis unfolding valid_def by blast
qed

text \<open>C4, an instance: the prices 10 and 20, the final value 300 on 200 invested.\<close>

theorem summarize_return_pct_witness:
  "aggregate (Map.empty(''A'' \<mapsto> [((0, 1), Some 10), ((1, 1), Some 20)])) [(''A'', ''A'')] 100
     = Inr (Some \<lparr>index = [(0, 1), (1, 1)],
         columns = [(''Total Invested'', [Some 100, Some 200]), (''A'', [Some 100, Some 300])]\<rparr>)
   \<and> (\<exists>final_invested ms.
         summarize \<lparr>index = [(0, 1), (1, 1)],
           columns = [(''Total Invested'', [Some 100, Some 200]), (''A'', [Some 100, Some 300])]\<rparr>
           [(''A'', ''A'')] = Inr (Some final_invested, ms)
         \<and> final_invested = 200 \<and> ms = [(''A'', Some 300, Fin 50)])"
proof -
  let ?D = "Map.empty(''A'' \<mapsto> [((0::nat, 1::nat), Some (10::real)), ((1, 1), Some 20)])"
  let ?T = "[(''A'', ''A'')]"
  let ?fr = "\<lparr>index = [(0, 1), (1, 1)],
         columns = [(''Total Invested'', [Some 100, Some 200]), (''A'', [Some 100, Some 300])]\<rparr>"
  have a: "aggregate ?D ?T 100 = Inr (Some ?fr)"
    by (simp add: aggregate_def calculate_portfolio_def body_def init_state_def to_frame_def
      empty_frame_def df_empty_def set_column_def invested_column_def value_column_def ffill_def)
  have n: "''Total Invested'' \<notin> fst ` set ?T" by simp
  from summarize_return_pct [OF a n] obtain fi ms where
    s: "summarize ?fr ?T = Inr (Some fi, ms)"
    and i: "\<exists>inv. map_of (columns ?fr) ''Total Invested'' = Some inv \<and> inv \<noteq> [] \<and> last inv = Some fi"
    and names: "map fst ms = filter (\<lambda>name. name \<in> fst ` set (columns ?fr)) (map fst ?T)"
    and each: "\<forall>m \<in> set ms. \<exists>col.
              map_of (columns ?fr) (fst m) = Some col \<and> col \<noteq> [] \<and>
              fst (snd m) = last col \<and>
              snd (snd m) = return_pct (last col) (Some fi) \<and>
              (fi \<noteq> 0 \<longrightarrow> (\<forall>v. last col = Some v \<longrightarrow> snd (snd m) = Fin ((v / fi - 1) * 100))) \<and>
              (fi = 0 \<longrightarrow> snd (snd m) = NaN)"
    by blast
  from i have fi: "fi = 200" by simp
  from names obtain m where ms: "ms = [m]" and m1: "fst m = ''A''"
    by (cases ms) auto
  from each ms m1 fi have "fst (snd m) = Some 300 \<and> snd (snd m) = Fin ((300 / 200 - 1) * 100)"
    by auto
  with m1 have "m = (''A'', Some 300, Fin 50)" by (cases m) simp
  with s fi ms a show ?thesis by simp
qed

text \<open>C4 as stated fails: with the contribution 0 the final invested amount is 0, and
  the return of the ticker is computed and is NaN.\<close>

theorem return_pct_zero_invested_counterexample:
  "aggregate (Map.empty(''A'' \<mapsto> [((0, 1), Some 10)])) [(''A'', ''A'')] 0
     = Inr (Some \<lparr>index = [(0, 1)], columns = [(''Total Invested'', [Some 0]), (''A'', [Some 0])]\<rparr>)
   \<and> summarize \<lparr>index = [(0, 1)], columns = [(''Total Invested'', [Some 0]), (''A'', [Some 0])]\<rparr>
        [(''A'', ''A'')]
     = Inr (Some 0, [(''A'', Some 0, NaN)])"
  by (simp add: aggregate_def calculate_portfolio_def body_def init_state_def to_frame_def
      empty_frame_def df_empty_def set_column_def invested_column_def value_column_def ffill_def
      summarize_def final_cell_def return_pct_def)

end
